theory Spec2Isabelle
  imports Main "HOL-Library.Multiset"
begin

unbundle bit_operations_syntax

section \<open>The C++ \<open>int\<close> of the program\<close>

text \<open>
  Every number of \<open>Act7/main.cpp\<close> is a C++ \<open>int\<close>. Values are modelled as
  mathematical integers and every addition and subtraction of the program is written
  with the 32-bit two's complement wrap-around that the compiled program performs
  (the C++ standard leaves signed overflow undefined). Array indices, which the
  program keeps in the range \<open>0..N-1\<close>, are natural numbers.
\<close>

definition INT_MAX :: int where
  "INT_MAX = 2147483647"

definition wrap32 :: "int \<Rightarrow> int" where
  "wrap32 x = (x + 2147483648) mod 4294967296 - 2147483648"

definition add32 :: "int \<Rightarrow> int \<Rightarrow> int" where
  "add32 a b = wrap32 (a + b)"

definition sub32 :: "int \<Rightarrow> int \<Rightarrow> int" where
  "sub32 a b = wrap32 (a - b)"

definition MAX_N :: nat where
  "MAX_N = 16"

text \<open>The global arrays \<open>distanceMatrix\<close>, \<open>capacityMatrix\<close>, \<open>residual\<close>: indexed by
  row and column.\<close>

type_synonym matrix = "nat \<Rightarrow> nat \<Rightarrow> int"

text \<open>Every \<open>throw runtime_error\<close> of the three solvers.\<close>

datatype error =
    NoEdgesFound        \<comment> \<open>"No edges found in the distance matrix. The graph is disconnected."\<close>
  | GraphDisconnected   \<comment> \<open>"The graph is disconnected; cannot form a spanning tree."\<close>
  | NoValidPath         \<comment> \<open>"No valid path found in TSP."\<close>
  | NoNextCity          \<comment> \<open>"Failed to find the next city in TSP route."\<close>

section \<open>Task 2: the travelling salesman by bitmask dynamic programming\<close>

type_synonym dp_table = "nat \<Rightarrow> nat \<Rightarrow> int"

definition VISITED_ALL :: "nat \<Rightarrow> nat" where
  "VISITED_ALL N = push_bit N 1 - 1"

text \<open>The cities below \<open>N\<close> that the bitmask \<open>msk\<close> (the source's \<open>mask\<close>) has not visited.\<close>

definition unvisited :: "nat \<Rightarrow> nat \<Rightarrow> nat set" where
  "unvisited N msk = {c. c < N \<and> msk AND push_bit c 1 = 0}"

lemma finite_unvisited [simp]: "finite (unvisited N msk)"
  by (simp add: unvisited_def)

lemma and_bit_zero_iff: "(msk AND 2 ^ c = 0) = (\<not> bit msk c)" for msk :: nat
  by (rule and_exp_eq_0_iff_not_bit)

lemma unvisited_iff: "c \<in> unvisited N msk \<longleftrightarrow> c < N \<and> \<not> bit msk c"
  by (simp add: unvisited_def and_bit_zero_iff)

lemma unvisited_visit:
  "unvisited N (msk OR 2 ^ c) = unvisited N msk - {c}"
  by (auto simp add: unvisited_iff bit_or_iff bit_exp_iff)

lemma card_unvisited_visit:
  assumes "c < N" "msk AND 2 ^ c = 0"
  shows "card (unvisited N (msk OR 2 ^ c)) < card (unvisited N msk)"
proof -
  have "c \<in> unvisited N msk"
    using assms by (simp add: unvisited_def)
  then have "card (unvisited N msk - {c}) < card (unvisited N msk)"
    by (intro card_Diff1_less) simp_all
  then show ?thesis
    by (simp only: unvisited_visit)
qed

text \<open>
  \<open>tsp(mask, pos)\<close>, with the memo table \<open>DP\<close> passed in and returned. \<open>tsp_loop\<close> is
  the \<open>for (city...)\<close> loop of its body, from \<open>city\<close> on, with the loop's variables
  \<open>ans\<close> and \<open>found\<close>.
\<close>

function tsp :: "matrix \<Rightarrow> nat \<Rightarrow> dp_table \<Rightarrow> nat \<Rightarrow> nat \<Rightarrow> error + (int \<times> dp_table)"
  and tsp_loop :: "matrix \<Rightarrow> nat \<Rightarrow> dp_table \<Rightarrow> nat \<Rightarrow> nat \<Rightarrow> nat \<Rightarrow> int \<Rightarrow> bool
      \<Rightarrow> error + (int \<times> bool \<times> dp_table)"
  where
    "tsp d N DP msk pos =
      (if msk = VISITED_ALL N then Inr (d pos 0, DP)
       else if DP msk pos \<noteq> - 1 then Inr (DP msk pos, DP)
       else case tsp_loop d N DP msk pos 0 INT_MAX False of
           Inl e \<Rightarrow> Inl e
         | Inr (ans, found, DP') \<Rightarrow>
             if \<not> found then Inl NoValidPath
             else Inr (ans, DP'(msk := (DP' msk)(pos := ans))))"
  | "tsp_loop d N DP msk pos city ans found =
      (if city < N then
         (if msk AND push_bit city 1 = 0 then
            (case tsp d N DP (msk OR push_bit city 1) city of
               Inl e \<Rightarrow> Inl e
             | Inr (r, DP') \<Rightarrow>
                 (let newAns = add32 (d pos city) r in
                  if newAns < ans then tsp_loop d N DP' msk pos (city + 1) newAns True
                  else tsp_loop d N DP' msk pos (city + 1) ans found))
          else tsp_loop d N DP msk pos (city + 1) ans found)
       else Inr (ans, found, DP))"
  by pat_completeness auto
termination
  by (relation "inv_image (less_than <*lex*> less_than)
        (\<lambda>x. case x of
            Inl (d, N, DP, msk, pos) \<Rightarrow> (card (unvisited N msk), N + 1)
          | Inr (d, N, DP, msk, pos, city, ans, found) \<Rightarrow> (card (unvisited N msk), N - city))")
    (auto simp add: card_unvisited_visit)

declare tsp.simps [simp del] tsp_loop.simps [simp del]


text \<open>
  The \<open>for (city...)\<close> loop of the path reconstruction in \<open>main\<close>: it reads the
  memo table directly. \<open>bestCity = -1\<close> is \<open>None\<close>.
\<close>

function next_city :: "matrix \<Rightarrow> nat \<Rightarrow> dp_table \<Rightarrow> nat \<Rightarrow> nat \<Rightarrow> nat \<Rightarrow> nat option \<Rightarrow> int
    \<Rightarrow> nat option \<times> int"
  where
    "next_city d N DP msk pos city bestCity bestCost =
      (if city < N then
         (if msk AND push_bit city 1 = 0 then
            (let newMask = msk OR push_bit city 1;
                 currentCost = add32 (d pos city) (DP newMask city)
             in if currentCost < bestCost
                then next_city d N DP msk pos (city + 1) (Some city) currentCost
                else next_city d N DP msk pos (city + 1) bestCity bestCost)
          else next_city d N DP msk pos (city + 1) bestCity bestCost)
       else (bestCity, bestCost))"
  by pat_completeness auto
termination
  by (relation "measure (\<lambda>(d, N, DP, msk, pos, city, bestCity, bestCost). N - city)") auto

declare next_city.simps [simp del]

lemma next_city_unvisited_aux:
  "fst (next_city d N DP msk pos city b bc) = Some c \<Longrightarrow> b = Some c \<or> c \<in> unvisited N msk"
proof (induction d N DP msk pos city b bc rule: next_city.induct)
  case (1 d N DP msk pos city bestCity bestCost)
  show ?case
  proof (cases "city < N")
    case False
    with "1.prems" show ?thesis by (simp add: next_city.simps [of _ _ _ _ _ city])
  next
    case True
    note lt = this
    note unfold = next_city.simps [of d N DP msk pos city bestCity bestCost]
    show ?thesis
    proof (cases "msk AND push_bit city 1 = 0")
      case False
      with lt "1.prems" "1.IH"(3) show ?thesis by (simp add: unfold)
    next
      case True
      note free = this
      let ?cost = "add32 (d pos city) (DP (msk OR push_bit city 1) city)"
      show ?thesis
      proof (cases "?cost < bestCost")
        case True
        with lt free "1.prems" have "fst (next_city d N DP msk pos (city + 1) (Some city) ?cost) = Some c"
          by (simp add: unfold Let_def)
        from "1.IH"(1) [OF lt free refl refl True this] lt free
        show ?thesis by (auto simp add: unvisited_def)
      next
        case False
        with lt free "1.prems" have "fst (next_city d N DP msk pos (city + 1) bestCity bestCost) = Some c"
          by (simp add: unfold Let_def)
        from "1.IH"(2) [OF lt free refl refl False this]
        show ?thesis .
      qed
    qed
  qed
qed

lemma next_city_unvisited:
  "fst (next_city d N DP msk pos 0 None bc) = Some c \<Longrightarrow> c \<in> unvisited N msk"
  using next_city_unvisited_aux [of d N DP msk pos 0 None bc c] by simp

text \<open>The \<open>while (mask != VISITED_ALL)\<close> loop of the reconstruction.\<close>

function route_loop :: "matrix \<Rightarrow> nat \<Rightarrow> dp_table \<Rightarrow> nat \<Rightarrow> nat \<Rightarrow> nat list \<Rightarrow> error + nat list"
  where
    "route_loop d N DP msk pos path =
      (if msk \<noteq> VISITED_ALL N then
         (case fst (next_city d N DP msk pos 0 None INT_MAX) of
            None \<Rightarrow> Inl NoNextCity
          | Some bestCity \<Rightarrow>
              route_loop d N DP (msk OR push_bit bestCity 1) bestCity (path @ [bestCity]))
       else Inr path)"
  by pat_completeness auto
termination
proof (relation "measure (\<lambda>(d, N, DP, msk, pos, path). card (unvisited N msk))", goal_cases)
  case 1
  show ?case by simp
next
  case (2 d N DP msk pos path bestCity)
  from 2(2) have "fst (next_city d N DP msk pos 0 None INT_MAX) = Some bestCity"
    by simp
  then have "bestCity \<in> unvisited N msk"
    by (rule next_city_unvisited)
  then have "bestCity < N" "msk AND 2 ^ bestCity = 0"
    by (simp_all add: unvisited_def)
  then show ?case
    by (simp add: card_unvisited_visit)
qed

declare route_loop.simps [simp del]

text \<open>The table after the two loops that reset it: \<open>-1\<close> in \<open>DP[i][j]\<close> for
  \<open>i < (1 << N)\<close> and \<open>j < N\<close>; the rest of the global array is still zero.\<close>

definition DP_init :: "nat \<Rightarrow> dp_table" where
  "DP_init N = (\<lambda>i j. if i < push_bit N 1 \<and> j < N then - 1 else 0)"

text \<open>Task 2 of \<open>main\<close>: the table is reset, \<open>minCost = tsp(1, 0)\<close>, then the route is
  rebuilt and closed with node 0. The result is the cost and the array \<open>path\<close>.\<close>

definition solveExactTour :: "matrix \<Rightarrow> nat \<Rightarrow> error + (int \<times> nat list)" where
  "solveExactTour d N =
     (case tsp d N (DP_init N) 1 0 of
        Inl e \<Rightarrow> Inl e
      | Inr (minCost, DP) \<Rightarrow>
          (case route_loop d N DP 1 0 [0] of
             Inl e \<Rightarrow> Inl e
           | Inr path \<Rightarrow> Inr (minCost, path @ [0])))"


section \<open>Task 1: the minimum spanning tree by Kruskal's algorithm\<close>

record Edge =
  edge_u :: nat
  edge_v :: nat
  weight :: int

text \<open>
  \<open>findSet\<close> follows the \<open>parent\<close> array to a root and compresses the path. It calls
  itself for as long as \<open>parent[u] != u\<close>, so on an array with a cycle it does not
  return: the result is an option, \<open>None\<close> for no result. The array is returned
  with the root.
\<close>

partial_function (option) findSet :: "(nat \<Rightarrow> nat) \<Rightarrow> nat \<Rightarrow> (nat \<times> (nat \<Rightarrow> nat)) option" where
  "findSet parent u =
     (if parent u \<noteq> u then
        Option.bind (findSet parent (parent u)) (\<lambda>(r, parent'). Some (r, parent'(u := r)))
      else Some (parent u, parent))"

declare findSet.simps [code]

definition unionSets :: "(nat \<Rightarrow> nat) \<Rightarrow> (nat \<Rightarrow> int) \<Rightarrow> nat \<Rightarrow> nat
    \<Rightarrow> (nat \<Rightarrow> nat) \<times> (nat \<Rightarrow> int)" where
  "unionSets parent rankArr u v =
     (if rankArr u < rankArr v then (parent(u := v), rankArr)
      else if rankArr u > rankArr v then (parent(v := u), rankArr)
      else (parent(v := u), rankArr(u := add32 (rankArr u) 1)))"

text \<open>The candidate edges: the two nested loops over \<open>i\<close> and \<open>j = i + 1 .. N - 1\<close> that
  fill the array \<open>edges\<close>.\<close>

definition candidate_edges :: "matrix \<Rightarrow> nat \<Rightarrow> Edge list" where
  "candidate_edges d N =
     concat (map (\<lambda>i. map (\<lambda>j. \<lparr>edge_u = i, edge_v = j, weight = d i j\<rparr>)
                          (filter (\<lambda>j. d i j \<noteq> 0) [i + 1 ..< N]))
                 [0 ..< N])"

text \<open>The selection sort of \<open>edges\<close>: \<open>find_min\<close> is the inner loop over \<open>j\<close>,
  \<open>sort_edges\<close> the outer loop over \<open>i\<close>, \<open>swap_min\<close> its swap of
  \<open>edges[i]\<close> and \<open>edges[minIdx]\<close>.\<close>

function find_min :: "Edge list \<Rightarrow> nat \<Rightarrow> nat \<Rightarrow> nat" where
  "find_min edges j minIdx =
     (if j < length edges then
        find_min edges (j + 1) (if weight (edges ! j) < weight (edges ! minIdx) then j else minIdx)
      else minIdx)"
  by pat_completeness auto
termination
  by (relation "measure (\<lambda>(edges, j, minIdx). length edges - j)") auto

declare find_min.simps [simp del]

definition swap_min :: "Edge list \<Rightarrow> nat \<Rightarrow> nat \<Rightarrow> Edge list" where
  "swap_min edges i minIdx =
     (if minIdx \<noteq> i then edges[i := edges ! minIdx, minIdx := edges ! i] else edges)"

lemma length_swap_min [simp]: "length (swap_min edges i minIdx) = length edges"
  by (simp add: swap_min_def)

function sort_edges :: "Edge list \<Rightarrow> nat \<Rightarrow> Edge list" where
  "sort_edges edges i =
     (if int i < int (length edges) - 1 then
        sort_edges (swap_min edges i (find_min edges (i + 1) i)) (i + 1)
      else edges)"
  by pat_completeness auto
termination
  by (relation "measure (\<lambda>(edges, i). length edges - i)") simp_all

declare sort_edges.simps [simp del]

text \<open>The loop that accepts edges: \<open>for (i = 0; i < edgeCount && e < N - 1; ++i)\<close>, over
  the sorted edges still to come, with the union-find arrays and the accepted edges
  \<open>result[0..e-1]\<close>.\<close>

fun kruskal_loop :: "nat \<Rightarrow> Edge list \<Rightarrow> (nat \<Rightarrow> nat) \<Rightarrow> (nat \<Rightarrow> int) \<Rightarrow> Edge list
    \<Rightarrow> ((nat \<Rightarrow> nat) \<times> (nat \<Rightarrow> int) \<times> Edge list) option" where
  "kruskal_loop N [] parent rankArr result = Some (parent, rankArr, result)"
| "kruskal_loop N (ed # edges) parent rankArr result =
     (if int (length result) < int N - 1 then
        (case findSet parent (edge_u ed) of
           None \<Rightarrow> None
         | Some (setU, parent1) \<Rightarrow>
             (case findSet parent1 (edge_v ed) of
                None \<Rightarrow> None
              | Some (setV, parent2) \<Rightarrow>
                  if setU \<noteq> setV then
                    (case unionSets parent2 rankArr setU setV of
                       (parent3, rankArr3) \<Rightarrow>
                         kruskal_loop N edges parent3 rankArr3 (result @ [ed]))
                  else kruskal_loop N edges parent2 rankArr result))
      else Some (parent, rankArr, result))"

text \<open>Task 1 of \<open>main\<close>. The result is the array \<open>result\<close> of accepted edges.\<close>

definition buildMinimumSpanningTree :: "matrix \<Rightarrow> nat \<Rightarrow> (error + Edge list) option" where
  "buildMinimumSpanningTree d N =
     (let edges = candidate_edges d N in
      if length edges = 0 then Some (Inl NoEdgesFound)
      else
        (case kruskal_loop N (sort_edges edges 0) (\<lambda>i. if i < N then i else 0) (\<lambda>i. 0) [] of
           None \<Rightarrow> None
         | Some (parent, rankArr, result) \<Rightarrow>
             if int (length result) \<noteq> int N - 1 then Some (Inl GraphDisconnected)
             else Some (Inr result)))"

section \<open>Task 3: the maximum flow by augmenting paths\<close>

text \<open>
  \<open>bfs_scan\<close> is the \<open>for (v...)\<close> loop of \<open>bfs\<close> for the dequeued node \<open>u\<close>, from \<open>v\<close> on;
  its first component tells whether the loop returned \<open>true\<close> from \<open>bfs\<close>. The array
  \<open>queue\<close> is the list of the nodes enqueued so far (\<open>back\<close> is its length).
\<close>

function bfs_scan :: "matrix \<Rightarrow> nat \<Rightarrow> nat \<Rightarrow> nat \<Rightarrow> nat \<Rightarrow> (nat \<Rightarrow> bool) \<Rightarrow> nat list \<Rightarrow> (nat \<Rightarrow> int)
    \<Rightarrow> bool \<times> (nat \<Rightarrow> bool) \<times> nat list \<times> (nat \<Rightarrow> int)" where
  "bfs_scan residual N t u v visited queue parentFlow =
     (if v < N then
        (if \<not> visited v \<and> residual u v > 0 then
           (let queue' = queue @ [v];
                parentFlow' = parentFlow(v := int u);
                visited' = visited(v := True)
            in if v = t then (True, visited', queue', parentFlow')
               else bfs_scan residual N t u (v + 1) visited' queue' parentFlow')
         else bfs_scan residual N t u (v + 1) visited queue parentFlow)
      else (False, visited, queue, parentFlow))"
  by pat_completeness auto
termination
  by (relation "measure (\<lambda>(residual, N, t, u, v, visited, queue, parentFlow). N - v)") auto

declare bfs_scan.simps [simp del]

lemma bfs_scan_measure:
  "bfs_scan residual N t u v visited queue parentFlow = (b, visited', queue', parentFlow') \<Longrightarrow>
   card {w. w < N \<and> \<not> visited' w} + length queue' = card {w. w < N \<and> \<not> visited w} + length queue"
proof (induction residual N t u v visited queue parentFlow rule: bfs_scan.induct)
  case (1 residual N t u v visited queue parentFlow)
  note unfold = bfs_scan.simps [of residual N t u v visited queue parentFlow]
  show ?case
  proof (cases "v < N")
    case False
    with "1.prems" show ?thesis by (simp add: unfold)
  next
    case True
    note lt = this
    show ?thesis
    proof (cases "\<not> visited v \<and> residual u v > 0")
      case False
      with lt "1.prems" "1.IH"(2) show ?thesis by (auto simp add: unfold)
    next
      case True
      note new = this
      have eq: "{w. w < N \<and> \<not> (visited(v := True)) w} = {w. w < N \<and> \<not> visited w} - {v}"
        by auto
      have mem: "v \<in> {w. w < N \<and> \<not> visited w}"
        using lt new by simp
      have fin: "finite {w. w < N \<and> \<not> visited w}"
        by simp
      have "card ({w. w < N \<and> \<not> visited w} - {v}) + 1 = card {w. w < N \<and> \<not> visited w}"
        using card_Suc_Diff1 [OF fin mem] by simp
      then have c: "card {w. w < N \<and> \<not> (visited(v := True)) w} + 1 = card {w. w < N \<and> \<not> visited w}"
        by (simp only: eq)
      show ?thesis
      proof (cases "v = t")
        case True
        with lt new "1.prems"
        have "visited' = visited(v := True)" "queue' = queue @ [v]"
          unfolding unfold by (simp_all add: Let_def)
        with c show ?thesis by simp
      next
        case False
        with lt new "1.prems" have "bfs_scan residual N t u (v + 1) (visited(v := True)) (queue @ [v]) (parentFlow(v := int u)) = (b, visited', queue', parentFlow')"
          by (simp add: unfold Let_def)
        from "1.IH"(1) [OF lt new refl refl refl False this] c
        show ?thesis by simp
      qed
    qed
  qed
qed

text \<open>The \<open>while (front < back)\<close> loop of \<open>bfs\<close>.\<close>

function bfs_loop :: "matrix \<Rightarrow> nat \<Rightarrow> nat \<Rightarrow> nat \<Rightarrow> (nat \<Rightarrow> bool) \<Rightarrow> nat list \<Rightarrow> (nat \<Rightarrow> int)
    \<Rightarrow> bool \<times> (nat \<Rightarrow> bool) \<times> nat list \<times> (nat \<Rightarrow> int)" where
  "bfs_loop residual N t front visited queue parentFlow =
     (if front < length queue then
        (case bfs_scan residual N t (queue ! front) 0 visited queue parentFlow of
           (True, visited', queue', parentFlow') \<Rightarrow> (True, visited', queue', parentFlow')
         | (False, visited', queue', parentFlow') \<Rightarrow>
             bfs_loop residual N t (front + 1) visited' queue' parentFlow')
      else (False, visited, queue, parentFlow))"
  by pat_completeness auto
termination
proof (relation "measure (\<lambda>(residual, N, t, front, visited, queue, parentFlow).
          card {w. w < N \<and> \<not> visited w} + length queue - front)", goal_cases)
  case 1
  show ?case by simp
next
  case (2 residual N t front visited queue parentFlow x1 x2 visited' x2a queue' parentFlow')
  then have "bfs_scan residual N t (queue ! front) 0 visited queue parentFlow = (False, visited', queue', parentFlow')"
    by simp
  from bfs_scan_measure [OF this] 2(1)
  show ?case by simp
qed

declare bfs_loop.simps [simp del]

text \<open>\<open>bfs(s, t)\<close> on the global arrays \<open>residual\<close> and \<open>parentFlow\<close>.\<close>

definition bfs :: "matrix \<Rightarrow> nat \<Rightarrow> (nat \<Rightarrow> int) \<Rightarrow> nat \<Rightarrow> nat \<Rightarrow> bool \<times> (nat \<Rightarrow> int)" where
  "bfs residual N parentFlow s t =
     (case bfs_loop residual N t 0 ((\<lambda>i. False)(s := True)) [s] (parentFlow(s := - 1)) of
        (found, visited, queue, parentFlow') \<Rightarrow> (found, parentFlow'))"

text \<open>
  The two \<open>for (v = N - 1; v != 0; v = parentFlow[v])\<close> loops of \<open>main\<close>: the first
  takes the minimum residual capacity along the parent pointers, the second updates
  the residual matrix (\<open>push_edge\<close> is its body). They stop only at node 0, and
  \<open>residual[u][v]\<close> with \<open>u = -1\<close> is outside the array: both are options, with \<open>None\<close>
  for no defined result.
\<close>

partial_function (option) path_min :: "matrix \<Rightarrow> (nat \<Rightarrow> int) \<Rightarrow> nat \<Rightarrow> int \<Rightarrow> int option" where
  "path_min residual parentFlow v pathFlow =
     (if v \<noteq> 0 then
        (if parentFlow v < 0 then None
         else path_min residual parentFlow (nat (parentFlow v))
                (min pathFlow (residual (nat (parentFlow v)) v)))
      else Some pathFlow)"

declare path_min.simps [code]

definition push_edge :: "matrix \<Rightarrow> nat \<Rightarrow> nat \<Rightarrow> int \<Rightarrow> matrix" where
  "push_edge residual u v pathFlow =
     (let r1 = residual(u := (residual u)(v := sub32 (residual u v) pathFlow))
      in r1(v := (r1 v)(u := add32 (r1 v u) pathFlow)))"

partial_function (option) path_push :: "matrix \<Rightarrow> (nat \<Rightarrow> int) \<Rightarrow> nat \<Rightarrow> int \<Rightarrow> matrix option" where
  "path_push residual parentFlow v pathFlow =
     (if v \<noteq> 0 then
        (if parentFlow v < 0 then None
         else path_push (push_edge residual (nat (parentFlow v)) v pathFlow) parentFlow
                (nat (parentFlow v)) pathFlow)
      else Some residual)"

declare path_push.simps [code]

text \<open>The \<open>while (bfs(0, N - 1))\<close> loop of \<open>main\<close>.\<close>

partial_function (option) flow_loop :: "nat \<Rightarrow> matrix \<Rightarrow> (nat \<Rightarrow> int) \<Rightarrow> int \<Rightarrow> int option" where
  "flow_loop N residual parentFlow maxFlow =
     (case bfs residual N parentFlow 0 (N - 1) of
        (found, parentFlow') \<Rightarrow>
          if found then
            Option.bind (path_min residual parentFlow' (N - 1) INT_MAX) (\<lambda>pathFlow.
            Option.bind (path_push residual parentFlow' (N - 1) pathFlow) (\<lambda>residual'.
              flow_loop N residual' parentFlow' (add32 maxFlow pathFlow)))
          else Some maxFlow)"

declare flow_loop.simps [code]

text \<open>The global array \<open>residual\<close> after the two loops that copy the capacities: the
  entries outside the first \<open>N\<close> rows and columns are still zero.\<close>

definition initial_residual :: "matrix \<Rightarrow> nat \<Rightarrow> matrix" where
  "initial_residual capacityMatrix N = (\<lambda>i j. if i < N \<and> j < N then capacityMatrix i j else 0)"

text \<open>Task 3 of \<open>main\<close>: \<open>residual\<close> is a copy of the capacities, \<open>maxFlow\<close> starts at 0.\<close>

definition computeMaxFlow :: "matrix \<Rightarrow> nat \<Rightarrow> int option" where
  "computeMaxFlow capacityMatrix N = flow_loop N (initial_residual capacityMatrix N) (\<lambda>i. 0) 0"

section \<open>The three tasks in \<open>main\<close>\<close>

text \<open>
  The three tasks run one after the other inside the single \<open>try\<close> block of \<open>main\<close>; an
  exception thrown by one of them leaves the block.
\<close>

definition run_tasks :: "matrix \<Rightarrow> matrix \<Rightarrow> nat
    \<Rightarrow> (error + Edge list \<times> (int \<times> nat list) \<times> int) option" where
  "run_tasks distanceMatrix capacityMatrix N =
     (case buildMinimumSpanningTree distanceMatrix N of
        None \<Rightarrow> None
      | Some (Inl e) \<Rightarrow> Some (Inl e)
      | Some (Inr result) \<Rightarrow>
          (case solveExactTour distanceMatrix N of
             Inl e \<Rightarrow> Some (Inl e)
           | Inr tour \<Rightarrow>
               (case computeMaxFlow capacityMatrix N of
                  None \<Rightarrow> None
                | Some maxFlow \<Rightarrow> Some (Inr (result, tour, maxFlow)))))"

text \<open>A matrix given by its rows, as \<open>input.txt\<close> lists it.\<close>

definition mat :: "int list list \<Rightarrow> matrix" where
  "mat rows = (\<lambda>i j. rows ! i ! j)"



section \<open>Notions of the specification\<close>

subsection \<open>Order of the sorted candidates\<close>

text \<open>The entries before index \<open>i\<close> are in ascending order of weight and no heavier than
  any later entry: the invariant of the selection sort.\<close>

definition below_rest :: "Edge list \<Rightarrow> nat \<Rightarrow> bool" where
  "below_rest edges i \<longleftrightarrow>
     (\<forall>a b. a < i \<and> a < b \<and> b < length edges \<longrightarrow> weight (edges ! a) \<le> weight (edges ! b))"


text \<open>Candidates of equal weight appear in \<open>after\<close> in the order they have in \<open>before\<close>.\<close>

definition enumeration_order_kept :: "Edge list \<Rightarrow> Edge list \<Rightarrow> bool" where
  "enumeration_order_kept before after \<longleftrightarrow>
     (\<forall>w \<in> weight ` set before.
        filter (\<lambda>e. weight e = w) after = filter (\<lambda>e. weight e = w) before)"

subsection \<open>The recursion of \<open>tsp\<close> and the steps of the reconstruction\<close>

text \<open>The cities that the bitmask has visited: its set bits.\<close>

definition visited_cities :: "nat \<Rightarrow> nat set" where
  "visited_cities msk = {c. bit msk c}"

text \<open>
  The definitions of \<open>tsp\<close>, \<open>tsp_loop\<close> and \<open>route_loop\<close> come with their call relations:
  \<open>tsp_tsp_loop_rel x y\<close> holds when the evaluation of \<open>y\<close> (a call \<open>Inl\<close> of \<open>tsp\<close>, or a
  state \<open>Inr\<close> of its loop) goes on to \<open>x\<close>, and \<open>route_loop_rel x y\<close> when an iteration of
  the reconstruction loop leads from the state \<open>y\<close> to the state \<open>x\<close>. The arguments of
  a call, and the mask and the number of nodes among them:
\<close>

type_synonym tsp_args = "matrix \<times> nat \<times> dp_table \<times> nat \<times> nat"

type_synonym tsp_loop_args = "matrix \<times> nat \<times> dp_table \<times> nat \<times> nat \<times> nat \<times> int \<times> bool"

type_synonym route_args = "matrix \<times> nat \<times> dp_table \<times> nat \<times> nat \<times> nat list"

fun call_nodes :: "tsp_args + tsp_loop_args \<Rightarrow> nat" where
  "call_nodes (Inl (d, N, DP, msk, pos)) = N"
| "call_nodes (Inr (d, N, DP, msk, pos, city, ans, found)) = N"

fun call_mask :: "tsp_args + tsp_loop_args \<Rightarrow> nat" where
  "call_mask (Inl (d, N, DP, msk, pos)) = msk"
| "call_mask (Inr (d, N, DP, msk, pos, city, ans, found)) = msk"

text \<open>A measure that no step of the call relation increases, and that every step from
  or to a call of \<open>tsp\<close> decreases.\<close>

fun call_rank :: "tsp_args + tsp_loop_args \<Rightarrow> nat" where
  "call_rank (Inl (d, N, DP, msk, pos)) = 2 * card (unvisited N msk) + 1"
| "call_rank (Inr (d, N, DP, msk, pos, city, ans, found)) = 2 * card (unvisited N msk)"

text \<open>The call \<open>callee\<close> of \<open>tsp\<close> is made, from the loop of \<open>caller\<close> or deeper, while the
  call \<open>caller\<close> of \<open>tsp\<close> is evaluated: a chain of the call relation leads to it.\<close>

definition tsp_nested :: "tsp_args \<Rightarrow> tsp_args \<Rightarrow> bool" where
  "tsp_nested caller callee \<longleftrightarrow> (\<lambda>y x. tsp_tsp_loop_rel x y)\<^sup>+\<^sup>+ (Inl caller) (Inl callee)"

text \<open>The call \<open>callee\<close> of \<open>tsp\<close> is made by \<open>caller\<close> itself: the chain from \<open>caller\<close> stays
  in the loop of \<open>caller\<close> up to the state \<open>l\<close> of the loop that makes the call.\<close>

definition tsp_direct_call :: "tsp_args \<Rightarrow> tsp_args \<Rightarrow> bool" where
  "tsp_direct_call caller callee \<longleftrightarrow>
     (\<exists>l. (\<lambda>y x. tsp_tsp_loop_rel x y \<and> \<not> isl x)\<^sup>+\<^sup>+ (Inl caller) l \<and>
          tsp_tsp_loop_rel (Inl callee) l)"

text \<open>The iterations that the loop of \<open>tsp\<close> has left: \<open>N - city\<close>.\<close>

fun call_left :: "tsp_args + tsp_loop_args \<Rightarrow> nat" where
  "call_left (Inl (d, N, DP, msk, pos)) = 0"
| "call_left (Inr (d, N, DP, msk, pos, city, ans, found)) = N - city"

text \<open>An iteration of the reconstruction loop leads from \<open>st\<close> to \<open>st'\<close>.\<close>

definition route_next :: "route_args \<Rightarrow> route_args \<Rightarrow> bool" where
  "route_next st st' \<longleftrightarrow> route_loop_rel st' st"

subsection \<open>Tours and their cost\<close>

text \<open>The literal cost of a route: the sum of the matrix entries along its consecutive
  pairs, as an integer without bound.\<close>

fun path_cost :: "matrix \<Rightarrow> nat list \<Rightarrow> int" where
  "path_cost d (a # b # rest) = d a b + path_cost d (b # rest)"
| "path_cost d [a] = 0"
| "path_cost d [] = 0"

text \<open>The tours of \<open>N\<close> nodes: node 0, then the other nodes in some order, each once,
  then node 0 again. The brute-force minimum is the least cost among them.\<close>

definition tours :: "nat \<Rightarrow> nat list set" where
  "tours N = {0 # cs @ [0] | cs. distinct cs \<and> set cs = {1..<N}}"

definition brute_force_min :: "matrix \<Rightarrow> nat \<Rightarrow> int" where
  "brute_force_min d N = Min (path_cost d ` tours N)"

text \<open>The ways to complete a route from a state of the dynamic programme: the orders
  of the cities not yet visited; and the least cost of going from \<open>pos\<close> through all of
  them and back to node 0.\<close>

definition completions :: "nat \<Rightarrow> nat \<Rightarrow> nat list set" where
  "completions N msk = {cs. distinct cs \<and> set cs = unvisited N msk}"

definition best_completion :: "matrix \<Rightarrow> nat \<Rightarrow> nat \<Rightarrow> nat \<Rightarrow> int" where
  "best_completion d N msk pos = Min ((\<lambda>cs. path_cost d (pos # cs @ [0])) ` completions N msk)"

text \<open>The input that \<open>main\<close> accepts: \<open>1 \<le> N \<le> MAX_N\<close> and no negative entry.\<close>

definition valid_matrix :: "matrix \<Rightarrow> nat \<Rightarrow> bool" where
  "valid_matrix m N \<longleftrightarrow> 1 \<le> N \<and> N \<le> MAX_N \<and> (\<forall>i \<in> {0..<N}. \<forall>j \<in> {0..<N}. 0 \<le> m i j)"

text \<open>No route of \<open>N\<close> edges reaches \<open>INT_MAX\<close>: every entry times \<open>N\<close> is below it.\<close>

definition small_distances :: "matrix \<Rightarrow> nat \<Rightarrow> bool" where
  "small_distances d N \<longleftrightarrow> (\<forall>i \<in> {0..<N}. \<forall>j \<in> {0..<N}. d i j * int N < INT_MAX)"

text \<open>Every entry of the first \<open>N\<close> rows and columns lies between 0 and \<open>B\<close>.\<close>

definition bounded_by :: "matrix \<Rightarrow> nat \<Rightarrow> int \<Rightarrow> bool" where
  "bounded_by d N B \<longleftrightarrow> (\<forall>i<N. \<forall>j<N. 0 \<le> d i j \<and> d i j \<le> B)"

text \<open>The states \<open>(mask, pos)\<close> that the dynamic programme reaches from \<open>(1, 0)\<close>: the mask has
  no bit from \<open>N\<close> on and contains node 0.\<close>

definition good_state :: "nat \<Rightarrow> nat \<Rightarrow> nat \<Rightarrow> bool" where
  "good_state N msk pos \<longleftrightarrow> msk < 2 ^ N \<and> bit msk 0 \<and> pos < N"

text \<open>The cost of going from \<open>pos\<close> to the unvisited city \<open>c\<close> and completing from there:
  the term that the loops of \<open>tsp\<close> and of the reconstruction minimise.\<close>

definition step_cost :: "matrix \<Rightarrow> nat \<Rightarrow> nat \<Rightarrow> nat \<Rightarrow> nat \<Rightarrow> int" where
  "step_cost d N msk pos c = d pos c + best_completion d N (msk OR 2 ^ c) c"

text \<open>The invariant of the memo table: an entry of a reachable state is \<open>-1\<close>, or the
  state is not the final one, the entry is the least cost of a completion, and the
  entries of all its successor states below the final one are set too.\<close>

definition memo_inv :: "matrix \<Rightarrow> nat \<Rightarrow> dp_table \<Rightarrow> bool" where
  "memo_inv d N DP \<longleftrightarrow>
     (\<forall>m p. good_state N m p \<longrightarrow> DP m p \<noteq> - 1 \<longrightarrow>
        m \<noteq> VISITED_ALL N \<and> DP m p = best_completion d N m p \<and>
        (\<forall>c \<in> unvisited N m. m OR 2 ^ c = VISITED_ALL N \<or> DP (m OR 2 ^ c) c \<noteq> - 1))"

definition memo_mono :: "dp_table \<Rightarrow> dp_table \<Rightarrow> bool" where
  "memo_mono DP DP' \<longleftrightarrow> (\<forall>m p. DP m p \<noteq> - 1 \<longrightarrow> DP' m p = DP m p)"

text \<open>The invariant of the loop of \<open>tsp\<close> before it looks at \<open>city\<close>.\<close>

definition loop_acc :: "matrix \<Rightarrow> nat \<Rightarrow> nat \<Rightarrow> nat \<Rightarrow> nat \<Rightarrow> int \<Rightarrow> bool \<Rightarrow> bool" where
  "loop_acc d N msk pos city ans found \<longleftrightarrow>
     (if found then
        (\<exists>c \<in> unvisited N msk. c < city \<and> ans = step_cost d N msk pos c) \<and>
        (\<forall>c \<in> unvisited N msk. c < city \<longrightarrow> ans \<le> step_cost d N msk pos c)
      else ans = INT_MAX \<and> (\<forall>c \<in> unvisited N msk. \<not> c < city))"

definition succ_done :: "nat \<Rightarrow> dp_table \<Rightarrow> nat \<Rightarrow> nat \<Rightarrow> bool" where
  "succ_done N DP msk city \<longleftrightarrow>
     (\<forall>c \<in> unvisited N msk. c < city \<longrightarrow> msk OR 2 ^ c = VISITED_ALL N \<or> DP (msk OR 2 ^ c) c \<noteq> - 1)"

definition tsp_post :: "matrix \<Rightarrow> nat \<Rightarrow> dp_table \<Rightarrow> nat \<Rightarrow> nat \<Rightarrow> error + (int \<times> dp_table) \<Rightarrow> bool" where
  "tsp_post d N DP msk pos r \<longleftrightarrow>
     (\<exists>DP'. r = Inr (best_completion d N msk pos, DP') \<and> memo_inv d N DP' \<and> memo_mono DP DP' \<and>
        (msk \<noteq> VISITED_ALL N \<longrightarrow> DP' msk pos \<noteq> - 1))"

definition loop_post :: "matrix \<Rightarrow> nat \<Rightarrow> dp_table \<Rightarrow> nat \<Rightarrow> nat \<Rightarrow> error + (int \<times> bool \<times> dp_table) \<Rightarrow> bool" where
  "loop_post d N DP msk pos r \<longleftrightarrow>
     (\<exists>ans' found' DP'. r = Inr (ans', found', DP') \<and> memo_inv d N DP' \<and> memo_mono DP DP' \<and>
        loop_acc d N msk pos N ans' found' \<and> succ_done N DP' msk N)"

text \<open>The invariant of the loop of the reconstruction before it looks at \<open>city\<close>, for the
  costs \<open>g\<close> of the cities in \<open>U\<close>.\<close>

definition scan_acc :: "(nat \<Rightarrow> int) \<Rightarrow> nat set \<Rightarrow> nat \<Rightarrow> nat option \<Rightarrow> int \<Rightarrow> bool" where
  "scan_acc g U city best cost \<longleftrightarrow>
     (case best of
        None \<Rightarrow> cost = INT_MAX \<and> (\<forall>c \<in> U. c < city \<longrightarrow> \<not> g c < INT_MAX)
      | Some b \<Rightarrow> b \<in> U \<and> b < city \<and> cost = g b \<and> (\<forall>c \<in> U. c < city \<longrightarrow> cost \<le> g c))"

subsection \<open>Paths and cuts of a flow network\<close>

text \<open>An edge of strictly positive (residual) capacity between two of the \<open>N\<close> nodes.\<close>

definition pos_edge :: "matrix \<Rightarrow> nat \<Rightarrow> nat \<Rightarrow> nat \<Rightarrow> bool" where
  "pos_edge r N a b \<longleftrightarrow> a < N \<and> b < N \<and> 0 < r a b"

text \<open>The invariant of the breadth-first search: the queue starts with the source, holds
  each visited node once, and every later node has its parent earlier in the queue,
  over an edge of positive capacity.\<close>

definition bfs_inv :: "matrix \<Rightarrow> nat \<Rightarrow> nat \<Rightarrow> (nat \<Rightarrow> bool) \<Rightarrow> nat list \<Rightarrow> (nat \<Rightarrow> int) \<Rightarrow> bool" where
  "bfs_inv r N s visited queue parentFlow \<longleftrightarrow>
     queue \<noteq> [] \<and> hd queue = s \<and> distinct queue \<and> set queue = {v. visited v} \<and>
     (\<forall>v \<in> set queue. v < N) \<and>
     (\<forall>k. 0 < k \<and> k < length queue \<longrightarrow>
        (\<exists>j<k. parentFlow (queue ! k) = int (queue ! j) \<and> 0 < r (queue ! j) (queue ! k)))"

text \<open>The nodes dequeued before \<open>front\<close> have all their neighbours visited, and the node
  at \<open>front\<close> its neighbours below \<open>v\<close>.\<close>

definition bfs_closed :: "matrix \<Rightarrow> nat \<Rightarrow> (nat \<Rightarrow> bool) \<Rightarrow> nat list \<Rightarrow> nat \<Rightarrow> nat \<Rightarrow> bool" where
  "bfs_closed r N visited queue front v \<longleftrightarrow>
     (\<forall>j<front. \<forall>w<N. 0 < r (queue ! j) w \<longrightarrow> visited w) \<and>
     (\<forall>w<v. w < N \<longrightarrow> 0 < r (queue ! front) w \<longrightarrow> visited w)"

text \<open>A set of nodes that no edge of positive capacity leaves.\<close>

definition src_closed :: "matrix \<Rightarrow> nat \<Rightarrow> nat set \<Rightarrow> bool" where
  "src_closed r N S \<longleftrightarrow> S \<subseteq> {0..<N} \<and> (\<forall>u \<in> S. \<forall>w<N. 0 < r u w \<longrightarrow> w \<in> S)"

subsection \<open>The augmenting path and its effect\<close>

text \<open>The nodes met by the loops \<open>for (v = N - 1; v != 0; v = parentFlow[v])\<close>: from \<open>v\<close>
  along the parent pointers to node 0.\<close>

inductive parent_walk :: "(nat \<Rightarrow> int) \<Rightarrow> nat \<Rightarrow> nat list \<Rightarrow> bool" for parentFlow :: "nat \<Rightarrow> int" where
  at_source: "parent_walk parentFlow 0 [0]"
| to_parent: "v \<noteq> 0 \<Longrightarrow> 0 \<le> parentFlow v \<Longrightarrow> parent_walk parentFlow (nat (parentFlow v)) ns \<Longrightarrow>
    parent_walk parentFlow v (v # ns)"

text \<open>The edges \<open>(u, v)\<close> of such a walk, each from a parent \<open>u\<close> to its child \<open>v\<close>.\<close>

fun path_edges :: "nat list \<Rightarrow> (nat \<times> nat) list" where
  "path_edges (v # u # ns) = (u, v) # path_edges (u # ns)"
| "path_edges ns = []"

text \<open>The least residual capacity along the walk, starting from \<open>pathFlow\<close>; and the
  residual matrix after the updates along the walk.\<close>

fun bottleneck :: "matrix \<Rightarrow> nat list \<Rightarrow> int \<Rightarrow> int" where
  "bottleneck r (v # u # ns) pathFlow = bottleneck r (u # ns) (min pathFlow (r u v))"
| "bottleneck r ns pathFlow = pathFlow"

fun push_all :: "matrix \<Rightarrow> nat list \<Rightarrow> int \<Rightarrow> matrix" where
  "push_all r (v # u # ns) pathFlow = push_all (push_edge r u v pathFlow) (u # ns) pathFlow"
| "push_all r ns pathFlow = r"

text \<open>The invariant of the residual matrix with respect to the initial one: no negative
  entry, and the two entries of every pair of nodes keep their sum.\<close>

definition res_ok :: "matrix \<Rightarrow> matrix \<Rightarrow> bool" where
  "res_ok c r \<longleftrightarrow> (\<forall>a b. 0 \<le> r a b) \<and> (\<forall>a b. r a b + r b a = c a b + c b a)"

text \<open>The two capacities between any two nodes fit an \<open>int\<close> together.\<close>

definition pair_bounded :: "matrix \<Rightarrow> bool" where
  "pair_bounded c \<longleftrightarrow> (\<forall>a b. c a b + c b a \<le> INT_MAX)"

text \<open>A cut separating source and sink: a set of nodes with node 0 and without node
  \<open>N - 1\<close>; its capacity is the sum of the capacities from inside to outside.\<close>

definition is_cut :: "nat \<Rightarrow> nat set \<Rightarrow> bool" where
  "is_cut N S \<longleftrightarrow> S \<subseteq> {0..<N} \<and> 0 \<in> S \<and> N - 1 \<notin> S"

definition cut_capacity :: "matrix \<Rightarrow> nat \<Rightarrow> nat set \<Rightarrow> int" where
  "cut_capacity c N S = (\<Sum>a \<in> S. \<Sum>b \<in> {0..<N} - S. c a b)"

definition side :: "nat set \<Rightarrow> nat \<Rightarrow> int" where
  "side S v = (if v \<in> S then 1 else 0)"

text \<open>The least residual capacity on the edges of a walk.\<close>

definition path_bottleneck :: "matrix \<Rightarrow> nat list \<Rightarrow> int" where
  "path_bottleneck r ns = Min ((\<lambda>(u, v). r u v) ` set (path_edges ns))"

text \<open>The capacities of the input for which no sum of the flow computation leaves the
  range of \<open>int\<close>: the two capacities between any two nodes together, and the
  capacities of the edges that leave the source together, are at most \<open>INT_MAX\<close>.\<close>

definition pair_fits_int :: "matrix \<Rightarrow> nat \<Rightarrow> bool" where
  "pair_fits_int c N \<longleftrightarrow> (\<forall>a \<in> {0..<N}. \<forall>b \<in> {0..<N}. c a b + c b a \<le> INT_MAX)"

definition source_fits_int :: "matrix \<Rightarrow> nat \<Rightarrow> bool" where
  "source_fits_int c N \<longleftrightarrow> (\<Sum>b \<in> {1..<N}. c 0 b) \<le> INT_MAX"

text \<open>The invariant of the augmentation loop: the flow so far plus the residual
  capacity of any cut is the capacity of the cut.\<close>

definition flow_inv :: "matrix \<Rightarrow> nat \<Rightarrow> matrix \<Rightarrow> int \<Rightarrow> bool" where
  "flow_inv c N r F \<longleftrightarrow>
     res_ok c r \<and> 0 \<le> F \<and> (\<forall>S. is_cut N S \<longrightarrow> F + cut_capacity r N S = cut_capacity c N S)"

text \<open>The states of the augmentation loop of \<open>main\<close> at the loop head: the residual
  matrix, the parent array and \<open>maxFlow\<close>, from the initial ones through every
  iteration that the loop makes.\<close>

inductive flow_state :: "matrix \<Rightarrow> nat \<Rightarrow> matrix \<Rightarrow> (nat \<Rightarrow> int) \<Rightarrow> int \<Rightarrow> bool"
  for capacityMatrix :: matrix and N :: nat where
  initial: "flow_state capacityMatrix N (initial_residual capacityMatrix N) (\<lambda>i. 0) 0"
| augmented: "flow_state capacityMatrix N r parentFlow maxFlow \<Longrightarrow>
    bfs r N parentFlow 0 (N - 1) = (True, parentFlow') \<Longrightarrow>
    path_min r parentFlow' (N - 1) INT_MAX = Some pathFlow \<Longrightarrow>
    path_push r parentFlow' (N - 1) pathFlow = Some r' \<Longrightarrow>
    flow_state capacityMatrix N r' parentFlow' (add32 maxFlow pathFlow)"

text \<open>The entry \<open>residual[a][b]\<close> after the first iteration of the loop, if there is one.\<close>

definition residual_after_first :: "matrix \<Rightarrow> nat \<Rightarrow> nat \<Rightarrow> nat \<Rightarrow> int option" where
  "residual_after_first c N a b =
     (case bfs (initial_residual c N) N (\<lambda>i. 0) 0 (N - 1) of
        (found, parentFlow') \<Rightarrow>
          if found then
            Option.bind (path_min (initial_residual c N) parentFlow' (N - 1) INT_MAX) (\<lambda>pathFlow.
              map_option (\<lambda>r'. r' a b)
                (path_push (initial_residual c N) parentFlow' (N - 1) pathFlow))
          else None)"


section \<open>The selection sort of the candidate edges\<close>

lemma find_min_props:
  "minIdx < length edges \<Longrightarrow>
   find_min edges j minIdx < length edges \<and>
   (find_min edges j minIdx = minIdx \<or> j \<le> find_min edges j minIdx) \<and>
   weight (edges ! find_min edges j minIdx) \<le> weight (edges ! minIdx) \<and>
   (\<forall>k. j \<le> k \<and> k < length edges \<longrightarrow>
      weight (edges ! find_min edges j minIdx) \<le> weight (edges ! k))"
proof (induction edges j minIdx rule: find_min.induct)
  case (1 edges j minIdx)
  show ?case
  proof (cases "j < length edges")
    case False
    with "1.prems" show ?thesis by (simp add: find_min.simps [of edges j])
  next
    case True
    define m where "m = (if weight (edges ! j) < weight (edges ! minIdx) then j else minIdx)"
    have m: "m < length edges"
      using True "1.prems" by (simp add: m_def)
    have step: "find_min edges j minIdx = find_min edges (j + 1) m"
      using True by (simp add: find_min.simps [of edges j minIdx] m_def)
    define r where "r = find_min edges (j + 1) m"
    from "1.IH" [OF True, folded m_def, OF m]
    have r1: "r < length edges" and r2: "r = m \<or> j + 1 \<le> r"
      and r3: "weight (edges ! r) \<le> weight (edges ! m)"
      and r4: "\<And>k. j + 1 \<le> k \<Longrightarrow> k < length edges \<Longrightarrow> weight (edges ! r) \<le> weight (edges ! k)"
      unfolding r_def by blast+
    have m1: "weight (edges ! m) \<le> weight (edges ! minIdx)"
      and m2: "weight (edges ! m) \<le> weight (edges ! j)"
      and m3: "m = minIdx \<or> m = j"
      by (simp_all add: m_def)
    have a: "r = minIdx \<or> j \<le> r"
      using r2 m3 by auto
    have b: "weight (edges ! r) \<le> weight (edges ! minIdx)"
      using r3 m1 by simp
    have c: "weight (edges ! r) \<le> weight (edges ! k)" if "j \<le> k" "k < length edges" for k
    proof (cases "k = j")
      case True
      with r3 m2 show ?thesis by simp
    next
      case False
      with that r4 [of k] show ?thesis by simp
    qed
    show ?thesis
      unfolding step r_def [symmetric] using r1 a b c by blast
  qed
qed

lemma mset_swap_min:
  "i < length edges \<Longrightarrow> m < length edges \<Longrightarrow> mset (swap_min edges i m) = mset edges"
  by (simp add: swap_min_def mset_swap)

lemma mset_sort_edges: "mset (sort_edges edges i) = mset edges"
proof (induction edges i rule: sort_edges.induct)
  case (1 edges i)
  show ?case
  proof (cases "int i < int (length edges) - 1")
    case False
    then show ?thesis by (simp add: sort_edges.simps [of edges i])
  next
    case True
    then have i: "i < length edges" by simp
    from find_min_props [OF i, of "i + 1"] have "find_min edges (i + 1) i < length edges"
      by simp
    with i have "mset (swap_min edges i (find_min edges (i + 1) i)) = mset edges"
      by (rule mset_swap_min)
    with "1.IH" [OF True] True show ?thesis
      by (simp add: sort_edges.simps [of edges i])
  qed
qed

lemma below_rest_swap_min:
  assumes inv: "below_rest edges i" and i: "i < length edges"
  shows "below_rest (swap_min edges i (find_min edges (i + 1) i)) (i + 1)"
proof -
  let ?m = "find_min edges (i + 1) i"
  from find_min_props [OF i, of "i + 1"]
  have m: "?m < length edges" and mi: "?m = i \<or> i + 1 \<le> ?m"
    and le_i: "weight (edges ! ?m) \<le> weight (edges ! i)"
    and le_k: "\<And>k. i + 1 \<le> k \<Longrightarrow> k < length edges \<Longrightarrow> weight (edges ! ?m) \<le> weight (edges ! k)"
    by blast+
  have im: "i \<le> ?m" using mi by auto
  let ?es = "swap_min edges i ?m"
  have nth: "\<And>k. k < length edges \<Longrightarrow>
      ?es ! k = (if k = i then edges ! ?m else if k = ?m then edges ! i else edges ! k)"
    using i m by (auto simp add: swap_min_def nth_list_update)
  show ?thesis
    unfolding below_rest_def
  proof (intro allI impI)
    fix a b assume ab: "a < i + 1 \<and> a < b \<and> b < length ?es"
    then have a: "a < length edges" and b: "b < length edges" by simp_all
    show "weight (?es ! a) \<le> weight (?es ! b)"
    proof (cases "a = i")
      case True
      then have "?es ! a = edges ! ?m" using nth [OF a] by simp
      moreover have "weight (edges ! ?m) \<le> weight (?es ! b)"
        using nth [OF b] ab True le_i le_k [of b] by auto
      ultimately show ?thesis by simp
    next
      case False
      with ab have ai: "a < i" by simp
      then have ea: "?es ! a = edges ! a" using nth [OF a] im by simp
      have "weight (edges ! a) \<le> weight (edges ! k)" if "a < k" "k < length edges" for k
        using inv ai that unfolding below_rest_def by blast
      then show ?thesis
        unfolding ea using nth [OF b] ab ai i m im by auto
    qed
  qed
qed

lemma below_rest_sort_edges:
  "below_rest edges i \<Longrightarrow> below_rest (sort_edges edges i) (length edges)"
proof (induction edges i rule: sort_edges.induct)
  case (1 edges i)
  show ?case
  proof (cases "int i < int (length edges) - 1")
    case True
    then have i: "i < length edges" by simp
    from below_rest_swap_min [OF "1.prems" i] "1.IH" [OF True]
    have "below_rest (sort_edges (swap_min edges i (find_min edges (i + 1) i)) (i + 1)) (length edges)"
      by simp
    with True show ?thesis
      by (simp add: sort_edges.simps [of edges i])
  next
    case False
    then have "length edges \<le> i + 1" by simp
    have "below_rest edges (length edges)"
      unfolding below_rest_def
    proof (intro allI impI)
      fix a b assume ab: "a < length edges \<and> a < b \<and> b < length edges"
      with \<open>length edges \<le> i + 1\<close> have "a < i \<and> a < b \<and> b < length edges"
        by linarith
      with "1.prems" show "weight (edges ! a) \<le> weight (edges ! b)"
        unfolding below_rest_def by blast
    qed
    with False show ?thesis by (simp add: sort_edges.simps [of edges i])
  qed
qed

lemma length_sort_edges [simp]: "length (sort_edges edges i) = length edges"
  using mset_sort_edges [of edges i] by (metis size_mset)

lemma sorted_sort_edges: "sorted (map weight (sort_edges edges 0))"
proof -
  have "below_rest edges 0" by (simp add: below_rest_def)
  then have "below_rest (sort_edges edges 0) (length edges)"
    by (rule below_rest_sort_edges)
  then show ?thesis
    by (auto simp add: below_rest_def sorted_iff_nth_mono_less)
qed


text \<open>
  Claim C6, as amended. After the sorting step the candidate edges are in ascending
  order of weight and are a rearrangement of the enumerated candidates (the pairs
  \<open>(i, j)\<close>, \<open>i < j\<close>, with nonzero distance, in row-major order). Being a function of the
  input, the order is deterministic; it is the order of a selection sort.
\<close>

theorem sort_edges_ascending_rearrangement:
  "sorted (map weight (sort_edges (candidate_edges d N) 0)) \<and>
   mset (sort_edges (candidate_edges d N) 0) = mset (candidate_edges d N)"
  by (simp add: sorted_sort_edges mset_sort_edges)

text \<open>
  Claim C6 as stated fails: the swap of the selection sort moves an edge past later
  edges of the same weight. With \<open>d[0][1] = 2\<close>, \<open>d[0][2] = 2\<close>, \<open>d[1][2] = 1\<close> the
  candidates are enumerated as \<open>(0,1), (0,2), (1,2)\<close> and sorted to \<open>(1,2), (0,2), (0,1)\<close>.
\<close>

theorem sort_edges_breaks_enumeration_order:
  "\<not> enumeration_order_kept
       (candidate_edges (mat [[0, 2, 2], [0, 0, 1], [0, 0, 0]]) 3)
       (sort_edges (candidate_edges (mat [[0, 2, 2], [0, 0, 1], [0, 0, 0]]) 3) 0)"
  by code_simp

section \<open>Failure of one task and the other tasks\<close>

text \<open>
  Claim C5, as amended. When the spanning tree task throws (either of its two
  \<open>runtime_error\<close>s), the run of the three tasks ends with that error: the tour and the
  flow are not computed.
\<close>

theorem mst_failure_aborts_run:
  "buildMinimumSpanningTree d N = Some (Inl e) \<Longrightarrow> run_tasks d c N = Some (Inl e)"
  by (simp add: run_tasks_def)

theorem mst_failure_aborts_run_witness:
  "buildMinimumSpanningTree (mat [[0, 0], [0, 0]]) 2 = Some (Inl NoEdgesFound) \<and>
   run_tasks (mat [[0, 0], [0, 0]]) (mat [[0, 1], [0, 0]]) 2 = Some (Inl NoEdgesFound)"
proof -
  have h: "buildMinimumSpanningTree (mat [[0, 0], [0, 0]]) 2 = Some (Inl NoEdgesFound)"
    by code_simp
  from h mst_failure_aborts_run [OF h, of "mat [[0, 1], [0, 0]]"] show ?thesis
    by simp
qed

text \<open>
  Claim C5 as stated fails. On the distance matrix without edges and a capacity matrix
  with one edge, each of the two other tasks has a result of its own, and the run of
  the three tasks delivers neither: it ends with the error of the first task.
\<close>

theorem mst_failure_hides_other_results:
  "buildMinimumSpanningTree (mat [[0, 0], [0, 0]]) 2 = Some (Inl NoEdgesFound) \<and>
   solveExactTour (mat [[0, 0], [0, 0]]) 2 = Inr (0, [0, 1, 0]) \<and>
   computeMaxFlow (mat [[0, 1], [0, 0]]) 2 = Some 1 \<and>
   run_tasks (mat [[0, 0], [0, 0]]) (mat [[0, 1], [0, 0]]) 2 = Some (Inl NoEdgesFound)"
  by code_simp

section \<open>Depth of the recursion and of the reconstruction loop\<close>

lemma bit_imp_exp_le:
  fixes msk :: nat
  assumes "bit msk c"
  shows "2 ^ c \<le> msk"
proof (rule ccontr)
  assume "\<not> 2 ^ c \<le> msk"
  then have "msk div 2 ^ c = 0" by simp
  with assms show False by (simp add: bit_iff_odd)
qed

lemma finite_visited_cities [simp]: "finite (visited_cities msk)"
proof -
  have "c \<le> msk" if "bit msk c" for c
  proof -
    have "c < 2 ^ c" by (rule less_exp)
    also have "\<dots> \<le> msk" using that by (rule bit_imp_exp_le)
    finally show ?thesis by simp
  qed
  then have "visited_cities msk \<subseteq> {..msk}"
    by (auto simp add: visited_cities_def)
  then show ?thesis by (rule finite_subset) simp
qed

lemma card_visited_cities_visit:
  assumes "msk AND 2 ^ c = 0"
  shows "card (visited_cities (msk OR 2 ^ c)) = card (visited_cities msk) + 1"
proof -
  have "c \<notin> visited_cities msk"
    using assms by (simp add: visited_cities_def and_bit_zero_iff)
  moreover have "visited_cities (msk OR 2 ^ c) = insert c (visited_cities msk)"
    by (auto simp add: visited_cities_def bit_or_iff bit_exp_iff)
  ultimately show ?thesis by simp
qed

lemma card_unvisited_le: "card (unvisited N msk) \<le> N"
proof -
  have "unvisited N msk \<subseteq> {..<N}" by (auto simp add: unvisited_def)
  then have "card (unvisited N msk) \<le> card {..<N}" by (intro card_mono) simp_all
  then show ?thesis by simp
qed

lemma relpowp_decreasing:
  fixes f :: "'a \<Rightarrow> nat"
  assumes dec: "\<And>a b. R a b \<Longrightarrow> f b < f a"
  shows "(R ^^ k) x y \<Longrightarrow> k + f y \<le> f x"
proof (induction k arbitrary: y)
  case 0
  then show ?case by simp
next
  case (Suc k)
  then obtain z where "(R ^^ k) x z" "R z y" by auto
  with Suc.IH [of z] dec [of z y] show ?case by simp
qed

lemma visited_cities_visit: "visited_cities (msk OR 2 ^ c) = insert c (visited_cities msk)"
  by (auto simp add: visited_cities_def bit_or_iff bit_exp_iff)

lemma tsp_rel_step:
  assumes "tsp_tsp_loop_rel x y"
  shows "call_nodes x = call_nodes y \<and>
    visited_cities (call_mask y) \<subseteq> visited_cities (call_mask x) \<and>
    call_rank x \<le> call_rank y \<and> (isl y \<longrightarrow> call_rank x < call_rank y)"
  using assms
proof (cases rule: tsp_tsp_loop_rel.cases)
  case (1 d N DP msk pos)
  then show ?thesis by simp
next
  case (2 d N DP msk pos city ans found)
  from 2(3,4) have "card (unvisited N (msk OR 2 ^ city)) < card (unvisited N msk)"
    by (intro card_unvisited_visit) (simp_all add: unvisited_iff and_exp_eq_0_iff_not_bit)
  with 2 show ?thesis by (simp add: visited_cities_visit subset_insertI)
next
  case (3 d N DP msk pos city ans found b x y xa)
  then show ?thesis by simp
next
  case (4 d N DP msk pos city ans found b x y xa)
  then show ?thesis by simp
next
  case (5 d N DP msk pos city ans found)
  then show ?thesis by simp
qed

lemma tsp_rel_chain:
  assumes "(\<lambda>y x. tsp_tsp_loop_rel x y)\<^sup>+\<^sup>+ y x"
  shows "call_nodes x = call_nodes y \<and>
    visited_cities (call_mask y) \<subseteq> visited_cities (call_mask x) \<and>
    call_rank x \<le> call_rank y \<and> (isl y \<longrightarrow> call_rank x < call_rank y)"
  using assms
proof (induction rule: tranclp_induct)
  case (base x)
  with tsp_rel_step [of x y] show ?case by simp
next
  case (step x z)
  from tsp_rel_step [OF step.hyps(2)] have s: "call_nodes z = call_nodes x"
    "visited_cities (call_mask x) \<subseteq> visited_cities (call_mask z)"
    "call_rank z \<le> call_rank x"
    by simp_all
  with step.IH show ?case by auto
qed

lemma tsp_nested_deeper:
  assumes "tsp_nested (d, N, DP, msk, pos) (d', N', DP', msk', pos')"
  shows "N' = N" and "card (unvisited N msk') < card (unvisited N msk)"
    and "card (visited_cities msk) < card (visited_cities msk')"
proof -
  from tsp_rel_chain [OF assms [unfolded tsp_nested_def]]
  have n: "N' = N" and sub: "visited_cities msk \<subseteq> visited_cities msk'"
    and rank: "2 * card (unvisited N' msk') + 1 < 2 * card (unvisited N msk) + 1"
    by auto
  from n show "N' = N" .
  from rank n show less: "card (unvisited N msk') < card (unvisited N msk)" by simp
  have "visited_cities msk \<noteq> visited_cities msk'"
  proof
    assume "visited_cities msk = visited_cities msk'"
    then have "bit msk c = bit msk' c" for c by (auto simp add: visited_cities_def)
    then have "unvisited N msk = unvisited N msk'" by (auto simp add: unvisited_iff)
    with less show False by simp
  qed
  with sub have "visited_cities msk \<subset> visited_cities msk'" by blast
  then show "card (visited_cities msk) < card (visited_cities msk')"
    by (intro psubset_card_mono) simp_all
qed

lemma tsp_nested_measure:
  assumes "tsp_nested a b"
  shows "fst (snd b) = fst (snd a) \<and>
   card (unvisited (fst (snd b)) (fst (snd (snd (snd b))))) <
   card (unvisited (fst (snd a)) (fst (snd (snd (snd a)))))"
proof -
  obtain d N DP msk pos where a: "a = (d, N, DP, msk, pos)" by (rule prod_cases5)
  obtain d' N' DP' msk' pos' where b: "b = (d', N', DP', msk', pos')" by (rule prod_cases5)
  from tsp_nested_deeper(1,2) [OF assms [unfolded a b]] show ?thesis by (simp add: a b)
qed

lemma route_next_step:
  assumes "route_loop_rel (d', N', DP', msk', pos', path') (d, N, DP, msk, pos, path)"
  shows "N' = N \<and> pos' \<in> unvisited N msk \<and> msk' = msk OR 2 ^ pos'"
proof (rule route_loop_rel.cases [OF assms])
  fix d0 N0 DP0 msk0 pos0 path0 x2
  assume callee: "(d', N', DP', msk', pos', path') =
      (d0, N0, DP0, msk0 OR push_bit x2 1, x2, path0 @ [x2])"
    and caller: "(d, N, DP, msk, pos, path) = (d0, N0, DP0, msk0, pos0, path0)"
    and nxt: "fst (next_city d0 N0 DP0 msk0 pos0 0 None INT_MAX) = Some x2"
  from nxt have "x2 \<in> unvisited N0 msk0" by (rule next_city_unvisited)
  with callee caller show ?thesis by simp
qed

lemma tsp_rel_in_loop:
  assumes "tsp_tsp_loop_rel x y" "\<not> isl x"
  shows "call_nodes x = call_nodes y \<and> call_mask x = call_mask y"
  using assms
proof (cases rule: tsp_tsp_loop_rel.cases)
  case (1 d N DP msk pos)
  then show ?thesis by simp
next
  case (2 d N DP msk pos city ans found)
  with assms(2) show ?thesis by simp
next
  case (3 d N DP msk pos city ans found b x y xa)
  then show ?thesis by simp
next
  case (4 d N DP msk pos city ans found b x y xa)
  then show ?thesis by simp
next
  case (5 d N DP msk pos city ans found)
  then show ?thesis by simp
qed

lemma tsp_loop_chain:
  assumes "(\<lambda>y x. tsp_tsp_loop_rel x y \<and> \<not> isl x)\<^sup>+\<^sup>+ y x"
  shows "call_nodes x = call_nodes y \<and> call_mask x = call_mask y \<and> \<not> isl x"
  using assms
proof (induction rule: tranclp_induct)
  case (base x)
  with tsp_rel_in_loop [of x y] show ?case by simp
next
  case (step x z)
  with tsp_rel_in_loop [of z x] show ?case by simp
qed

lemma tsp_direct_call_step:
  assumes "tsp_direct_call (d, N, DP, msk, pos) (d', N', DP', msk', pos')"
  shows "N' = N \<and> pos' \<in> unvisited N msk \<and> msk' = msk OR 2 ^ pos'"
proof -
  from assms obtain l
    where chain: "(\<lambda>y x. tsp_tsp_loop_rel x y \<and> \<not> isl x)\<^sup>+\<^sup>+ (Inl (d, N, DP, msk, pos)) l"
      and call: "tsp_tsp_loop_rel (Inl (d', N', DP', msk', pos')) l"
    by (auto simp add: tsp_direct_call_def)
  from tsp_loop_chain [OF chain]
  have l: "call_nodes l = N" "call_mask l = msk" by simp_all
  from call l show ?thesis
    by (cases rule: tsp_tsp_loop_rel.cases)
      (simp_all add: unvisited_iff and_exp_eq_0_iff_not_bit)
qed

lemma tsp_direct_call_nested:
  assumes "tsp_direct_call a b"
  shows "tsp_nested a b"
proof -
  from assms obtain l
    where chain: "(\<lambda>y x. tsp_tsp_loop_rel x y \<and> \<not> isl x)\<^sup>+\<^sup>+ (Inl a) l"
      and call: "tsp_tsp_loop_rel (Inl b) l"
    by (auto simp add: tsp_direct_call_def)
  from chain have "(\<lambda>y x. tsp_tsp_loop_rel x y)\<^sup>+\<^sup>+ (Inl a) l"
  proof (induction rule: tranclp_induct)
    case (base x)
    then show ?case by (intro tranclp.r_into_trancl) simp
  next
    case (step x z)
    from step.IH show ?case by (rule tranclp.trancl_into_trancl) (simp add: step.hyps)
  qed
  with call show ?thesis
    unfolding tsp_nested_def by (rule tranclp.trancl_into_trancl [rotated])
qed

lemma tsp_rel_lex:
  assumes "tsp_tsp_loop_rel x y"
  shows "call_rank x < call_rank y \<or> call_rank x = call_rank y \<and> call_left x < call_left y"
  using assms
proof (cases rule: tsp_tsp_loop_rel.cases)
  case (1 d N DP msk pos)
  then show ?thesis by simp
next
  case (2 d N DP msk pos city ans found)
  from 2(3,4) have "card (unvisited N (msk OR 2 ^ city)) < card (unvisited N msk)"
    by (intro card_unvisited_visit) simp_all
  with 2 show ?thesis by simp
next
  case (3 d N DP msk pos city ans found b x y xa)
  then show ?thesis by simp
next
  case (4 d N DP msk pos city ans found b x y xa)
  then show ?thesis by simp
next
  case (5 d N DP msk pos city ans found)
  then show ?thesis by simp
qed

lemma wfp_tsp_tsp_loop_rel: "wfP tsp_tsp_loop_rel"
proof -
  have "{(x, y). tsp_tsp_loop_rel x y} \<subseteq>
      inv_image (less_than <*lex*> less_than) (\<lambda>s. (call_rank s, call_left s))"
    using tsp_rel_lex by auto
  moreover have "wf (inv_image (less_than <*lex*> less_than)
      (\<lambda>s. (call_rank s, call_left s)))"
    by (intro wf_inv_image wf_lex_prod wf_less_than)
  ultimately have "wf {(x, y). tsp_tsp_loop_rel x y}"
    by (rule wf_subset [rotated])
  then show ?thesis by (simp add: wfp_def)
qed

lemma wfp_route_loop_rel: "wfP route_loop_rel"
proof -
  have "card (unvisited (fst (snd x)) (fst (snd (snd (snd x))))) <
      card (unvisited (fst (snd y)) (fst (snd (snd (snd y)))))" if "route_loop_rel x y" for x y
  proof -
    obtain d' N' DP' msk' pos' path' where x: "x = (d', N', DP', msk', pos', path')"
      by (rule prod_cases6)
    obtain d N DP msk pos path where y: "y = (d, N, DP, msk, pos, path)"
      by (rule prod_cases6)
    from route_next_step [OF that [unfolded x y]] show ?thesis
      by (simp add: x y card_unvisited_visit unvisited_iff and_exp_eq_0_iff_not_bit)
  qed
  then have "{(x, y). route_loop_rel x y} \<subseteq>
      measure (\<lambda>s. card (unvisited (fst (snd s)) (fst (snd (snd (snd s))))))"
    by auto
  then have "wf {(x, y). route_loop_rel x y}"
    by (rule wf_subset [rotated]) simp
  then show ?thesis by (simp add: wfp_def)
qed

lemma tsp_nested_chain_le:
  assumes "(tsp_nested ^^ k) (d, N, DP, msk, pos) s"
  shows "k \<le> N"
proof -
  let ?f = "\<lambda>a :: tsp_args. card (unvisited (fst (snd a)) (fst (snd (snd (snd a)))))"
  have dec: "?f b < ?f a" if "tsp_nested a b" for a b
    using tsp_nested_measure [OF that] by (rule conjunct2)
  from relpowp_decreasing [of tsp_nested ?f, OF dec assms]
  have "k \<le> card (unvisited N msk)" by simp
  with card_unvisited_le [of N msk] show ?thesis by simp
qed

lemma route_next_chain_le:
  assumes "(route_next ^^ k) (d, N, DP, msk, pos, path) t"
  shows "k \<le> N"
proof -
  let ?f = "\<lambda>a :: route_args. card (unvisited (fst (snd a)) (fst (snd (snd (snd a)))))"
  have dec: "?f b < ?f a" if "route_next a b" for a b
  proof -
    obtain d' N' DP' msk' pos' path' where b: "b = (d', N', DP', msk', pos', path')"
      by (rule prod_cases6)
    obtain d N DP msk pos path where a: "a = (d, N, DP, msk, pos, path)"
      by (rule prod_cases6)
    from that have "route_loop_rel b a" by (simp add: route_next_def)
    from route_next_step [OF this [unfolded a b]] show ?thesis
      by (simp add: a b card_unvisited_visit unvisited_iff and_exp_eq_0_iff_not_bit)
  qed
  from relpowp_decreasing [of route_next ?f, OF dec assms]
  have "k \<le> card (unvisited N msk)" by simp
  with card_unvisited_le [of N msk] show ?thesis by simp
qed

text \<open>
  Claim C10. The statement is about the call relations of the definitions of \<open>tsp\<close>,
  \<open>tsp_loop\<close> and \<open>route_loop\<close>. A recursive call that \<open>tsp(mask, pos)\<close> makes is on a mask
  with exactly one more set bit, the bit of a city below \<open>N\<close> that \<open>mask\<close> had not visited,
  and every call nested in it, at any depth, is on a mask with strictly more set bits; an
  iteration of the reconstruction loop adds one such city to its mask. Hence a chain of
  \<open>k\<close> nested calls of \<open>tsp\<close>, and a run of \<open>k\<close> iterations of the reconstruction loop, from
  any state, has \<open>k \<le> N\<close>; and both call relations are well-founded: neither the recursion
  nor the loop goes on forever.
\<close>

theorem tsp_calls_and_route_loop_depth:
  "(tsp_direct_call (d, N, DP, msk, pos) (d', N', DP', msk', pos') \<longrightarrow>
      N' = N \<and> card (visited_cities msk') = card (visited_cities msk) + 1 \<and>
      pos' \<in> unvisited N msk \<and> tsp_nested (d, N, DP, msk, pos) (d', N', DP', msk', pos')) \<and>
   (tsp_nested (d, N, DP, msk, pos) (d', N', DP', msk', pos') \<longrightarrow>
      N' = N \<and> card (visited_cities msk) < card (visited_cities msk')) \<and>
   (route_loop_rel (d', N', DP', msk', pos', path') (d, N, DP, msk, pos, path) \<longrightarrow>
      N' = N \<and> card (visited_cities msk') = card (visited_cities msk) + 1 \<and>
      pos' \<in> unvisited N msk) \<and>
   ((tsp_nested ^^ k) (d, N, DP, msk, pos) s \<longrightarrow> k \<le> N) \<and>
   ((route_next ^^ k) (d, N, DP, msk, pos, path) t \<longrightarrow> k \<le> N) \<and>
   wfP tsp_tsp_loop_rel \<and> wfP route_loop_rel"
proof (intro conjI impI)
  assume a: "tsp_direct_call (d, N, DP, msk, pos) (d', N', DP', msk', pos')"
  from tsp_direct_call_step [OF a]
  have s: "N' = N" "pos' \<in> unvisited N msk" "msk' = msk OR 2 ^ pos'" by simp_all
  show "N' = N" by (rule s)
  show "pos' \<in> unvisited N msk" by (rule s)
  from s(2) have "msk AND 2 ^ pos' = 0" by (simp add: unvisited_iff and_exp_eq_0_iff_not_bit)
  then show "card (visited_cities msk') = card (visited_cities msk) + 1"
    unfolding s(3) by (rule card_visited_cities_visit)
  from a show "tsp_nested (d, N, DP, msk, pos) (d', N', DP', msk', pos')"
    by (rule tsp_direct_call_nested)
next
  assume a: "tsp_nested (d, N, DP, msk, pos) (d', N', DP', msk', pos')"
  from a show "N' = N" by (rule tsp_nested_deeper)
  from a show "card (visited_cities msk) < card (visited_cities msk')"
    by (rule tsp_nested_deeper)
next
  assume a: "route_loop_rel (d', N', DP', msk', pos', path') (d, N, DP, msk, pos, path)"
  from route_next_step [OF a]
  have s: "N' = N" "pos' \<in> unvisited N msk" "msk' = msk OR 2 ^ pos'" by simp_all
  show "N' = N" by (rule s)
  show "pos' \<in> unvisited N msk" by (rule s)
  from s(2) have "msk AND 2 ^ pos' = 0" by (simp add: unvisited_iff and_exp_eq_0_iff_not_bit)
  then show "card (visited_cities msk') = card (visited_cities msk) + 1"
    unfolding s(3) by (rule card_visited_cities_visit)
next
  assume "(tsp_nested ^^ k) (d, N, DP, msk, pos) s"
  then show "k \<le> N" by (rule tsp_nested_chain_le)
next
  assume "(route_next ^^ k) (d, N, DP, msk, pos, path) t"
  then show "k \<le> N" by (rule route_next_chain_le)
next
  show "wfP tsp_tsp_loop_rel" by (rule wfp_tsp_tsp_loop_rel)
  show "wfP route_loop_rel" by (rule wfp_route_loop_rel)
qed

theorem tsp_calls_and_route_loop_depth_witness:
  "tsp_direct_call (mat [[0, 1], [1, 0]], 2, \<lambda>i j. - 1, 1, 0) (mat [[0, 1], [1, 0]], 2, \<lambda>i j. - 1, 3, 1) \<and>
   tsp_nested (mat [[0, 1], [1, 0]], 2, \<lambda>i j. - 1, 1, 0) (mat [[0, 1], [1, 0]], 2, \<lambda>i j. - 1, 3, 1) \<and>
   route_loop_rel (mat [[0, 1], [1, 0]], 2, \<lambda>i j. - 1, 3, 1, [0, 1])
     (mat [[0, 1], [1, 0]], 2, \<lambda>i j. - 1, 1, 0, [0]) \<and>
   (tsp_nested ^^ 1) (mat [[0, 1], [1, 0]], 2, \<lambda>i j. - 1, 1, 0)
     (mat [[0, 1], [1, 0]], 2, \<lambda>i j. - 1, 3, 1) \<and>
   (route_next ^^ 1) (mat [[0, 1], [1, 0]], 2, \<lambda>i j. - 1, 1, 0, [0])
     (mat [[0, 1], [1, 0]], 2, \<lambda>i j. - 1, 3, 1, [0, 1]) \<and>
   card (visited_cities 3) = card (visited_cities 1) + 1 \<and>
   card (visited_cities 1) < card (visited_cities 3) \<and>
   1 \<in> unvisited 2 1 \<and> (1::nat) \<le> 2"
proof -
  let ?d = "mat [[0, 1], [1, 0]]"
  let ?DP = "\<lambda>(i::nat) (j::nat). - 1 :: int"
  have r1: "tsp_tsp_loop_rel (Inr (?d, 2, ?DP, 1, 0, 0, INT_MAX, False)) (Inl (?d, 2, ?DP, 1, 0))"
    by (rule tsp_tsp_loop_rel.intros) (simp_all add: VISITED_ALL_def)
  have "tsp_tsp_loop_rel (Inr (?d, 2, ?DP, 1, 0, 0 + 1, INT_MAX, False))
      (Inr (?d, 2, ?DP, 1, 0, 0, INT_MAX, False))"
    by (rule tsp_tsp_loop_rel.intros(5)) simp_all
  then have r5: "tsp_tsp_loop_rel (Inr (?d, 2, ?DP, 1, 0, 1, INT_MAX, False))
      (Inr (?d, 2, ?DP, 1, 0, 0, INT_MAX, False))"
    by simp
  have "tsp_tsp_loop_rel (Inl (?d, 2, ?DP, 1 OR push_bit 1 1, 1))
      (Inr (?d, 2, ?DP, 1, 0, 1, INT_MAX, False))"
    by (rule tsp_tsp_loop_rel.intros(2)) simp_all
  then have r2: "tsp_tsp_loop_rel (Inl (?d, 2, ?DP, 3, 1))
      (Inr (?d, 2, ?DP, 1, 0, 1, INT_MAX, False))"
    by simp
  have "(\<lambda>y x. tsp_tsp_loop_rel x y \<and> \<not> isl x)\<^sup>+\<^sup>+ (Inl (?d, 2, ?DP, 1, 0))
      (Inr (?d, 2, ?DP, 1, 0, 0, INT_MAX, False))"
    using r1 by (intro tranclp.r_into_trancl) simp
  then have "(\<lambda>y x. tsp_tsp_loop_rel x y \<and> \<not> isl x)\<^sup>+\<^sup>+ (Inl (?d, 2, ?DP, 1, 0))
      (Inr (?d, 2, ?DP, 1, 0, 1, INT_MAX, False))"
    by (rule tranclp.trancl_into_trancl) (use r5 in simp)
  with r2 have c: "tsp_direct_call (?d, 2, ?DP, 1, 0) (?d, 2, ?DP, 3, 1)"
    unfolding tsp_direct_call_def by (intro exI conjI)
  have n: "fst (next_city ?d 2 ?DP 1 0 0 None INT_MAX) = Some 1"
    by code_simp
  have "route_loop_rel (?d, 2, ?DP, 1 OR push_bit 1 1, 1, [0] @ [1]) (?d, 2, ?DP, 1, 0, [0])"
    by (rule route_loop_rel.intros [OF _ n]) (simp add: VISITED_ALL_def)
  then have r: "route_loop_rel (?d, 2, ?DP, 3, 1, [0, 1]) (?d, 2, ?DP, 1, 0, [0])" by simp
  then have rk: "(route_next ^^ 1) (?d, 2, ?DP, 1, 0, [0]) (?d, 2, ?DP, 3, 1, [0, 1])"
    by (auto simp add: route_next_def)
  note t = tsp_calls_and_route_loop_depth
    [of ?d 2 ?DP 1 0 ?d 2 ?DP 3 1 "[0, 1]" "[0]" 1 "(?d, 2, ?DP, 3, 1)" "(?d, 2, ?DP, 3, 1, [0, 1])"]
  from t c have nested: "tsp_nested (?d, 2, ?DP, 1, 0) (?d, 2, ?DP, 3, 1)" by blast
  then have nk: "(tsp_nested ^^ 1) (?d, 2, ?DP, 1, 0) (?d, 2, ?DP, 3, 1)" by auto
  from t c nested r rk nk show ?thesis by blast
qed

section \<open>The dynamic programme computes the cheapest tour\<close>

subsection \<open>Completions of a route\<close>

lemma finite_completions [simp]: "finite (completions N msk)"
proof -
  have "completions N msk \<subseteq> {cs. set cs \<subseteq> unvisited N msk \<and> length cs = card (unvisited N msk)}"
    using distinct_card by (fastforce simp add: completions_def)
  then show ?thesis
    by (rule finite_subset) (simp add: finite_lists_length_eq)
qed

lemma completions_nonempty: "completions N msk \<noteq> {}"
  using finite_distinct_list [OF finite_unvisited, of N msk]
  by (auto simp add: completions_def)

lemma length_completion: "cs \<in> completions N msk \<Longrightarrow> length cs = card (unvisited N msk)"
  using distinct_card by (fastforce simp add: completions_def)

lemma completion_Cons:
  assumes "c \<in> unvisited N msk" "cs \<in> completions N (msk OR 2 ^ c)"
  shows "c # cs \<in> completions N msk"
  using assms by (auto simp add: completions_def unvisited_visit)

lemma completion_cases:
  assumes "cs \<in> completions N msk" "unvisited N msk \<noteq> {}"
  obtains c cs' where "cs = c # cs'" "c \<in> unvisited N msk" "cs' \<in> completions N (msk OR 2 ^ c)"
proof (cases cs)
  case Nil
  with assms show ?thesis by (simp add: completions_def)
next
  case (Cons c cs')
  with assms(1) have "c \<in> unvisited N msk" "cs' \<in> completions N (msk OR 2 ^ c)"
    by (auto simp add: completions_def unvisited_visit)
  with Cons that show ?thesis by blast
qed

lemma completions_all_visited:
  "unvisited N msk = {} \<Longrightarrow> completions N msk = {[]}"
  by (auto simp add: completions_def)

subsection \<open>Bounds on the cost of a route\<close>

lemma path_cost_bounds:
  assumes "\<And>i j. i < N \<Longrightarrow> j < N \<Longrightarrow> 0 \<le> d i j \<and> d i j \<le> B"
  shows "\<forall>x \<in> set xs. x < N \<Longrightarrow> xs \<noteq> [] \<Longrightarrow>
    0 \<le> path_cost d xs \<and> path_cost d xs \<le> (int (length xs) - 1) * B"
proof (induction xs rule: induct_list012)
  case 1
  then show ?case by simp
next
  case (2 a)
  then show ?case by simp
next
  case (3 a b rest)
  then have ih: "0 \<le> path_cost d (b # rest) \<and> path_cost d (b # rest) \<le> (int (length (b # rest)) - 1) * B"
    by simp
  from 3 assms [of a b] have ab: "0 \<le> d a b \<and> d a b \<le> B" by simp
  from ih ab have "d a b + path_cost d (b # rest) \<le> B + (int (length (b # rest)) - 1) * B"
    by linarith
  also have "\<dots> = (int (length (a # b # rest)) - 1) * B"
    by (simp add: algebra_simps)
  finally show ?case using ih ab by simp
qed


subsection \<open>The least cost of a completion\<close>

lemma best_completion_le:
  "cs \<in> completions N msk \<Longrightarrow> best_completion d N msk pos \<le> path_cost d (pos # cs @ [0])"
  unfolding best_completion_def by (intro Min_le) simp_all

lemma best_completion_attained:
  "\<exists>cs \<in> completions N msk. best_completion d N msk pos = path_cost d (pos # cs @ [0])"
proof -
  have "Min ((\<lambda>cs. path_cost d (pos # cs @ [0])) ` completions N msk)
      \<in> (\<lambda>cs. path_cost d (pos # cs @ [0])) ` completions N msk"
    by (intro Min_in) (simp_all add: completions_nonempty)
  then show ?thesis
    unfolding best_completion_def by blast
qed

lemma best_completion_base:
  "unvisited N msk = {} \<Longrightarrow> best_completion d N msk pos = d pos 0"
  by (simp add: best_completion_def completions_all_visited)

lemma best_completion_le_step:
  assumes "c \<in> unvisited N msk"
  shows "best_completion d N msk pos \<le> d pos c + best_completion d N (msk OR 2 ^ c) c"
proof -
  obtain cs where cs: "cs \<in> completions N (msk OR 2 ^ c)"
    and eq: "best_completion d N (msk OR 2 ^ c) c = path_cost d (c # cs @ [0])"
    using best_completion_attained by blast
  from completion_Cons [OF assms cs]
  have "best_completion d N msk pos \<le> path_cost d (pos # (c # cs) @ [0])"
    by (rule best_completion_le)
  with eq show ?thesis by simp
qed

lemma best_completion_step:
  assumes "unvisited N msk \<noteq> {}"
  shows "\<exists>c \<in> unvisited N msk.
    best_completion d N msk pos = d pos c + best_completion d N (msk OR 2 ^ c) c"
proof -
  obtain cs where cs: "cs \<in> completions N msk"
    and eq: "best_completion d N msk pos = path_cost d (pos # cs @ [0])"
    using best_completion_attained by blast
  from cs assms obtain c cs' where split: "cs = c # cs'" and c: "c \<in> unvisited N msk"
    and cs': "cs' \<in> completions N (msk OR 2 ^ c)"
    by (rule completion_cases)
  have "d pos c + best_completion d N (msk OR 2 ^ c) c \<le> d pos c + path_cost d (c # cs' @ [0])"
    using best_completion_le [OF cs'] by simp
  also have "\<dots> = best_completion d N msk pos"
    by (simp add: eq split)
  finally have "d pos c + best_completion d N (msk OR 2 ^ c) c \<le> best_completion d N msk pos" .
  with best_completion_le_step [OF c, of d pos] c show ?thesis
    by (intro bexI [of _ c]) simp_all
qed

lemma unvisited_less: "c \<in> unvisited N msk \<Longrightarrow> c < N"
  by (simp add: unvisited_def)

lemma best_completion_bounds:
  assumes b: "bounded_by d N B" and pos: "pos < N"
  shows "0 \<le> best_completion d N msk pos"
    and "best_completion d N msk pos \<le> (int (card (unvisited N msk)) + 1) * B"
proof -
  obtain cs where cs: "cs \<in> completions N msk"
    and eq: "best_completion d N msk pos = path_cost d (pos # cs @ [0])"
    using best_completion_attained by blast
  have nodes: "\<forall>x \<in> set (pos # cs @ [0]). x < N"
    using cs pos by (auto simp add: completions_def unvisited_less)
  have "0 \<le> path_cost d (pos # cs @ [0]) \<and>
      path_cost d (pos # cs @ [0]) \<le> (int (length (pos # cs @ [0])) - 1) * B"
    by (rule path_cost_bounds [OF _ nodes]) (use b in \<open>simp_all add: bounded_by_def\<close>)
  then show "0 \<le> best_completion d N msk pos"
    and "best_completion d N msk pos \<le> (int (card (unvisited N msk)) + 1) * B"
    by (simp_all add: eq length_completion [OF cs] add.commute)
qed

subsection \<open>Masks\<close>

lemma VISITED_ALL_mask: "VISITED_ALL N = Bit_Operations.mask N"
  by (simp add: VISITED_ALL_def mask_eq_exp_minus_1)

lemma bit_less_exp:
  fixes msk :: nat
  assumes "msk < 2 ^ N" "bit msk c"
  shows "c < N"
proof (rule ccontr)
  assume "\<not> c < N"
  then have "(2::nat) ^ N \<le> 2 ^ c" by simp
  also have "\<dots> \<le> msk" using assms(2) by (rule bit_imp_exp_le)
  finally show False using assms(1) by simp
qed

lemma visited_all_iff:
  assumes "msk < 2 ^ N"
  shows "msk = VISITED_ALL N \<longleftrightarrow> unvisited N msk = {}"
proof
  assume "msk = VISITED_ALL N"
  then show "unvisited N msk = {}"
    by (auto simp add: unvisited_iff VISITED_ALL_mask bit_mask_iff)
next
  assume empty: "unvisited N msk = {}"
  have "bit msk c \<longleftrightarrow> c < N" for c
    using empty bit_less_exp [OF assms, of c] by (auto simp add: unvisited_iff)
  then show "msk = VISITED_ALL N"
    by (simp add: VISITED_ALL_mask bit_eq_iff bit_mask_iff)
qed

lemma good_state_visit:
  assumes "good_state N msk pos" "c \<in> unvisited N msk"
  shows "good_state N (msk OR 2 ^ c) c"
proof -
  from assms have c: "c < N" and m: "msk < 2 ^ N" and z: "bit msk 0"
    by (simp_all add: good_state_def unvisited_def)
  have "take_bit N (msk OR 2 ^ c) = msk OR 2 ^ c"
    using c m by (simp add: take_bit_or take_bit_nat_eq_self)
  then have "msk OR 2 ^ c < 2 ^ N"
    by (metis take_bit_nat_less_exp)
  with c z show ?thesis
    by (simp add: good_state_def bit_or_iff)
qed

lemma card_unvisited_good:
  assumes "good_state N msk pos"
  shows "int (card (unvisited N msk)) + 1 \<le> int N"
proof -
  from assms have "unvisited N msk \<subseteq> {..<N} - {0}" and "0 < N"
    by (auto simp add: good_state_def unvisited_iff)
  then have "card (unvisited N msk) \<le> card ({..<N} - {0})"
    by (intro card_mono) simp_all
  also have "\<dots> = N - 1" using \<open>0 < N\<close> by simp
  finally show ?thesis using \<open>0 < N\<close> by simp
qed


subsection \<open>Arithmetic without overflow\<close>

lemma wrap32_id: "- 2147483648 \<le> x \<Longrightarrow> x \<le> 2147483647 \<Longrightarrow> wrap32 x = x"
  by (simp add: wrap32_def)

lemma step_cost_range:
  assumes bd: "bounded_by d N B" and nb: "B * int N < INT_MAX"
    and gs: "good_state N msk pos" and c: "c \<in> unvisited N msk"
  shows "0 \<le> step_cost d N msk pos c" "step_cost d N msk pos c < INT_MAX"
    "add32 (d pos c) (best_completion d N (msk OR 2 ^ c) c) = step_cost d N msk pos c"
proof -
  from c have cN: "c < N" by (rule unvisited_less)
  from gs have pN: "pos < N" by (simp add: good_state_def)
  from bd pN cN have e: "0 \<le> d pos c" "d pos c \<le> B"
    by (simp_all add: bounded_by_def)
  then have B0: "0 \<le> B" by simp
  let ?r = "best_completion d N (msk OR 2 ^ c) c"
  have r: "0 \<le> ?r" "?r \<le> (int (card (unvisited N (msk OR 2 ^ c))) + 1) * B"
    by (rule best_completion_bounds [OF bd cN])+
  have "card (unvisited N (msk OR 2 ^ c)) + 1 = card (unvisited N msk)"
    using c card_Suc_Diff1 [OF finite_unvisited c] by (simp add: unvisited_visit)
  then have "int (card (unvisited N (msk OR 2 ^ c))) + 1 = int (card (unvisited N msk))"
    by linarith
  with r have r': "?r \<le> int (card (unvisited N msk)) * B" by simp
  have "d pos c + ?r \<le> B + int (card (unvisited N msk)) * B"
    using e r' by linarith
  also have "\<dots> = (int (card (unvisited N msk)) + 1) * B"
    by (simp add: algebra_simps)
  also have "\<dots> \<le> int N * B"
    using card_unvisited_good [OF gs] B0 by (intro mult_right_mono) simp_all
  also have "\<dots> < INT_MAX" using nb by (simp add: mult.commute)
  finally have lt: "d pos c + ?r < INT_MAX" .
  from e r show "0 \<le> step_cost d N msk pos c" by (simp add: step_cost_def)
  from lt show "step_cost d N msk pos c < INT_MAX" by (simp add: step_cost_def)
  from e r lt show "add32 (d pos c) ?r = step_cost d N msk pos c"
    by (simp add: add32_def step_cost_def wrap32_id INT_MAX_def)
qed

subsection \<open>The loop of \<open>tsp\<close> finds the least step\<close>

lemma loop_acc_finished:
  assumes gs: "good_state N msk pos" and nf: "msk \<noteq> VISITED_ALL N"
    and acc: "loop_acc d N msk pos N ans found"
  shows "found" "ans = best_completion d N msk pos"
proof -
  from gs have "msk < 2 ^ N" by (simp add: good_state_def)
  with nf have ne: "unvisited N msk \<noteq> {}" by (simp add: visited_all_iff)
  then obtain c0 where c0: "c0 \<in> unvisited N msk" by blast
  show f: "found"
  proof (rule ccontr)
    assume "\<not> found"
    with acc have "\<forall>c \<in> unvisited N msk. \<not> c < N" by (simp add: loop_acc_def)
    with c0 unvisited_less [OF c0] show False by blast
  qed
  with acc obtain c where c: "c \<in> unvisited N msk" and eq: "ans = step_cost d N msk pos c"
    and le: "\<And>c'. c' \<in> unvisited N msk \<Longrightarrow> ans \<le> step_cost d N msk pos c'"
    by (auto simp add: loop_acc_def unvisited_less)
  from best_completion_step [OF ne, of d pos] obtain c1 where c1: "c1 \<in> unvisited N msk"
    and b: "best_completion d N msk pos = step_cost d N msk pos c1"
    by (auto simp add: step_cost_def)
  have "best_completion d N msk pos \<le> ans"
    using best_completion_le_step [OF c, of d pos] by (simp add: eq step_cost_def)
  moreover have "ans \<le> best_completion d N msk pos"
    using le [OF c1] b by simp
  ultimately show "ans = best_completion d N msk pos" by simp
qed

lemma loop_acc_skip:
  assumes "loop_acc d N msk pos city ans found" "city \<notin> unvisited N msk"
  shows "loop_acc d N msk pos (city + 1) ans found"
  using assms unfolding loop_acc_def
  by (auto simp add: less_Suc_eq)

lemma loop_acc_take:
  assumes acc: "loop_acc d N msk pos city ans found" and c: "city \<in> unvisited N msk"
    and lt: "step_cost d N msk pos city < ans"
  shows "loop_acc d N msk pos (city + 1) (step_cost d N msk pos city) True"
proof -
  have "step_cost d N msk pos city \<le> step_cost d N msk pos c'"
    if "c' \<in> unvisited N msk" "c' < city + 1" for c'
  proof (cases "c' = city")
    case True
    then show ?thesis by simp
  next
    case False
    with that have "c' < city" by simp
    with acc that(1) lt show ?thesis
      by (cases found) (auto simp add: loop_acc_def)
  qed
  with c show ?thesis
    unfolding loop_acc_def by auto
qed

lemma loop_acc_keep:
  assumes acc: "loop_acc d N msk pos city ans found" and c: "city \<in> unvisited N msk"
    and ge: "\<not> step_cost d N msk pos city < ans" and small: "step_cost d N msk pos city < INT_MAX"
  shows "loop_acc d N msk pos (city + 1) ans found"
proof (cases found)
  case False
  with acc have "ans = INT_MAX" by (simp add: loop_acc_def)
  with ge small show ?thesis by simp
next
  case True
  with acc ge show ?thesis
    unfolding loop_acc_def by (auto simp add: less_Suc_eq)
qed

subsection \<open>The memo table\<close>

lemma memo_mono_refl: "memo_mono DP DP"
  by (simp add: memo_mono_def)

lemma memo_mono_trans: "memo_mono DP DP1 \<Longrightarrow> memo_mono DP1 DP2 \<Longrightarrow> memo_mono DP DP2"
  by (auto simp add: memo_mono_def)

lemma visit_neq: "c \<in> unvisited N msk \<Longrightarrow> msk OR 2 ^ c \<noteq> msk"
proof
  assume c: "c \<in> unvisited N msk" and eq: "msk OR 2 ^ c = msk"
  have "bit (msk OR 2 ^ c) c" by (simp add: bit_or_iff bit_exp_iff)
  with eq c show False by (simp add: unvisited_iff)
qed

lemma memo_inv_update:
  assumes inv: "memo_inv d N DP" and gs: "good_state N msk pos" and nf: "msk \<noteq> VISITED_ALL N"
    and val: "ans = best_completion d N msk pos" and nonneg: "0 \<le> ans"
    and succ: "succ_done N DP msk N"
  shows "memo_inv d N (DP(msk := (DP msk)(pos := ans)))"
  unfolding memo_inv_def
proof (intro allI impI)
  fix m p
  let ?DP = "DP(msk := (DP msk)(pos := ans))"
  assume g: "good_state N m p" and set: "?DP m p \<noteq> - 1"
  have keep: "?DP (m OR 2 ^ c) c \<noteq> - 1" if "DP (m OR 2 ^ c) c \<noteq> - 1" for c
    using that nonneg by auto
  show "m \<noteq> VISITED_ALL N \<and> ?DP m p = best_completion d N m p \<and>
      (\<forall>c \<in> unvisited N m. m OR 2 ^ c = VISITED_ALL N \<or> ?DP (m OR 2 ^ c) c \<noteq> - 1)"
  proof (cases "m = msk \<and> p = pos")
    case True
    have "msk OR 2 ^ c = VISITED_ALL N \<or> ?DP (msk OR 2 ^ c) c \<noteq> - 1"
      if "c \<in> unvisited N msk" for c
    proof -
      from succ that have "msk OR 2 ^ c = VISITED_ALL N \<or> DP (msk OR 2 ^ c) c \<noteq> - 1"
        unfolding succ_done_def using unvisited_less [OF that] by blast
      with keep [of c] True show ?thesis by blast
    qed
    with True nf val show ?thesis by simp
  next
    case False
    then have same: "?DP m p = DP m p" by auto
    with set inv g have old: "m \<noteq> VISITED_ALL N" "DP m p = best_completion d N m p"
      "\<forall>c \<in> unvisited N m. m OR 2 ^ c = VISITED_ALL N \<or> DP (m OR 2 ^ c) c \<noteq> - 1"
      unfolding memo_inv_def by metis+
    from old(3) keep have "\<forall>c \<in> unvisited N m. m OR 2 ^ c = VISITED_ALL N \<or> ?DP (m OR 2 ^ c) c \<noteq> - 1"
      by blast
    with old same show ?thesis by simp
  qed
qed

lemma succ_done_mono:
  "succ_done N DP msk city \<Longrightarrow> memo_mono DP DP' \<Longrightarrow> succ_done N DP' msk city"
  unfolding succ_done_def memo_mono_def by metis

lemma succ_done_step:
  assumes "succ_done N DP msk city"
    and "city \<in> unvisited N msk \<Longrightarrow> msk OR 2 ^ city = VISITED_ALL N \<or> DP (msk OR 2 ^ city) city \<noteq> - 1"
  shows "succ_done N DP msk (city + 1)"
  using assms unfolding succ_done_def by (auto simp add: less_Suc_eq)

lemma loop_acc_beyond:
  assumes "N \<le> city" "loop_acc d N msk pos city ans found"
  shows "loop_acc d N msk pos N ans found"
proof -
  have both: "c < city" "c < N" if "c \<in> unvisited N msk" for c
    using unvisited_less [OF that] assms(1) by simp_all
  show ?thesis
  proof (cases found)
    case True
    with assms(2) obtain c where "c \<in> unvisited N msk" "ans = step_cost d N msk pos c"
      and "\<forall>c' \<in> unvisited N msk. ans \<le> step_cost d N msk pos c'"
      unfolding loop_acc_def using both by auto
    with True both show ?thesis
      unfolding loop_acc_def by auto
  next
    case False
    with assms(2) both show ?thesis
      unfolding loop_acc_def by auto
  qed
qed

lemma tsp_tsp_loop_correct:
  fixes B :: int
  shows "bounded_by d N B \<Longrightarrow> B * int N < INT_MAX \<Longrightarrow> good_state N msk pos \<Longrightarrow> memo_inv d N DP \<Longrightarrow>
      tsp_post d N DP msk pos (tsp d N DP msk pos)"
    and "bounded_by d N B \<Longrightarrow> B * int N < INT_MAX \<Longrightarrow> good_state N msk pos \<Longrightarrow>
      msk \<noteq> VISITED_ALL N \<Longrightarrow> memo_inv d N DP \<Longrightarrow> loop_acc d N msk pos city ans found \<Longrightarrow>
      succ_done N DP msk city \<Longrightarrow>
      loop_post d N DP msk pos (tsp_loop d N DP msk pos city ans found)"
proof (induction d N DP msk pos and d N DP msk pos city ans found rule: tsp_tsp_loop.induct)
  case (1 d N DP msk pos)
  note bd = "1.prems"(1) and nb = "1.prems"(2) and gs = "1.prems"(3) and inv = "1.prems"(4)
  from gs have mN: "msk < 2 ^ N" and pN: "pos < N" by (simp_all add: good_state_def)
  show ?case
  proof (cases "msk = VISITED_ALL N")
    case True
    with visited_all_iff [OF mN] have "unvisited N msk = {}" by simp
    then have "best_completion d N msk pos = d pos 0" by (rule best_completion_base)
    moreover have "tsp d N DP msk pos = Inr (d pos 0, DP)"
      using True by (subst tsp.simps) simp
    ultimately show ?thesis
      using True inv by (simp add: tsp_post_def memo_mono_refl)
  next
    case False
    note nf = this
    show ?thesis
    proof (cases "DP msk pos \<noteq> - 1")
      case True
      with inv gs have "DP msk pos = best_completion d N msk pos"
        unfolding memo_inv_def by blast
      moreover have "tsp d N DP msk pos = Inr (DP msk pos, DP)"
        using True nf by (subst tsp.simps) simp
      ultimately show ?thesis
        using True nf inv by (simp add: tsp_post_def memo_mono_refl)
    next
      case False
      have acc0: "loop_acc d N msk pos 0 INT_MAX False" by (simp add: loop_acc_def)
      have sd0: "succ_done N DP msk 0" by (simp add: succ_done_def)
      from "1.IH" [OF nf False bd nb gs nf inv acc0 sd0]
      obtain ans' found' DP' where run: "tsp_loop d N DP msk pos 0 INT_MAX False = Inr (ans', found', DP')"
        and inv': "memo_inv d N DP'" and mono: "memo_mono DP DP'"
        and acc: "loop_acc d N msk pos N ans' found'" and sd: "succ_done N DP' msk N"
        unfolding loop_post_def by blast
      from loop_acc_finished [OF gs nf acc] have f: "found'" and a: "ans' = best_completion d N msk pos"
        by simp_all
      from best_completion_bounds(1) [OF bd pN, of msk] a have nonneg: "0 \<le> ans'" by simp
      let ?DP = "DP'(msk := (DP' msk)(pos := ans'))"
      have "memo_inv d N ?DP"
        using inv' gs nf a nonneg sd by (rule memo_inv_update)
      moreover have "memo_mono DP ?DP"
        using mono False unfolding memo_mono_def by auto
      moreover have "?DP msk pos \<noteq> - 1" using nonneg by simp
      moreover have "tsp d N DP msk pos = Inr (ans', ?DP)"
        using nf False run f by (subst tsp.simps) simp
      ultimately show ?thesis
        unfolding tsp_post_def using a by blast
    qed
  qed
next
  case (2 d N DP msk pos city ans found)
  note bd = "2.prems"(1) and nb = "2.prems"(2) and gs = "2.prems"(3) and nf = "2.prems"(4)
    and inv = "2.prems"(5) and acc = "2.prems"(6) and sd = "2.prems"(7)
  note unfold = tsp_loop.simps [of d N DP msk pos city ans found]
  show ?case
  proof (cases "city < N")
    case False
    then have "N \<le> city" by simp
    have "loop_acc d N msk pos N ans found"
      using \<open>N \<le> city\<close> acc by (rule loop_acc_beyond)
    moreover have "succ_done N DP msk N"
      using sd \<open>N \<le> city\<close> unfolding succ_done_def by (auto dest: unvisited_less)
    ultimately show ?thesis
      using False inv by (simp add: unfold loop_post_def memo_mono_refl)
  next
    case True
    note lt = this
    show ?thesis
    proof (cases "msk AND push_bit city 1 = 0")
      case False
      then have notin: "city \<notin> unvisited N msk" by (simp add: unvisited_def)
      have acc': "loop_acc d N msk pos (city + 1) ans found"
        using acc notin by (rule loop_acc_skip)
      have sd': "succ_done N DP msk (city + 1)"
        using sd notin by (intro succ_done_step) simp_all
      from "2.IH"(4) [OF lt False bd nb gs nf inv acc' sd'] lt False
      show ?thesis by (simp add: unfold)
    next
      case True
      note free = this
      with lt have c: "city \<in> unvisited N msk" by (simp add: unvisited_def)
      from good_state_visit [OF gs c] have gs': "good_state N (msk OR push_bit city 1) city"
        by simp
      from "2.IH"(1) [OF lt free bd nb gs' inv]
      obtain DP1 where call: "tsp d N DP (msk OR push_bit city 1) city
            = Inr (best_completion d N (msk OR push_bit city 1) city, DP1)"
        and inv1: "memo_inv d N DP1" and mono1: "memo_mono DP DP1"
        and done1: "msk OR push_bit city 1 \<noteq> VISITED_ALL N \<longrightarrow> DP1 (msk OR push_bit city 1) city \<noteq> - 1"
        unfolding tsp_post_def by blast
      let ?r = "best_completion d N (msk OR push_bit city 1) city"
      let ?new = "add32 (d pos city) ?r"
      from step_cost_range [OF bd nb gs c]
      have new: "?new = step_cost d N msk pos city" and small: "step_cost d N msk pos city < INT_MAX"
        by simp_all
      have sd1: "succ_done N DP1 msk (city + 1)"
      proof (rule succ_done_step)
        show "succ_done N DP1 msk city" using sd mono1 by (rule succ_done_mono)
        show "msk OR 2 ^ city = VISITED_ALL N \<or> DP1 (msk OR 2 ^ city) city \<noteq> - 1"
          using done1 by auto
      qed
      show ?thesis
      proof (cases "?new < ans")
        case True
        have acc1: "loop_acc d N msk pos (city + 1) ?new True"
          unfolding new using acc c True [unfolded new] by (rule loop_acc_take)
        from "2.IH"(2) [OF lt free call refl refl True bd nb gs nf inv1 acc1 sd1]
        obtain ans' found' DP' where run: "tsp_loop d N DP1 msk pos (city + 1) ?new True = Inr (ans', found', DP')"
          and rest: "memo_inv d N DP'" "memo_mono DP1 DP'" "loop_acc d N msk pos N ans' found'"
            "succ_done N DP' msk N"
          unfolding loop_post_def by blast
        have "tsp_loop d N DP msk pos city ans found = Inr (ans', found', DP')"
          using lt free call True run by (simp add: unfold Let_def)
        with rest memo_mono_trans [OF mono1 rest(2)] show ?thesis
          unfolding loop_post_def by blast
      next
        case False
        have acc1: "loop_acc d N msk pos (city + 1) ans found"
          using acc c False [unfolded new] small by (rule loop_acc_keep)
        from "2.IH"(3) [OF lt free call refl refl False bd nb gs nf inv1 acc1 sd1]
        obtain ans' found' DP' where run: "tsp_loop d N DP1 msk pos (city + 1) ans found = Inr (ans', found', DP')"
          and rest: "memo_inv d N DP'" "memo_mono DP1 DP'" "loop_acc d N msk pos N ans' found'"
            "succ_done N DP' msk N"
          unfolding loop_post_def by blast
        have "tsp_loop d N DP msk pos city ans found = Inr (ans', found', DP')"
          using lt free call False run by (simp add: unfold Let_def)
        with rest memo_mono_trans [OF mono1 rest(2)] show ?thesis
          unfolding loop_post_def by blast
      qed
    qed
  qed
qed

subsection \<open>The loop of the reconstruction finds a least step\<close>

lemma scan_acc_skip:
  "scan_acc g U city best cost \<Longrightarrow> city \<notin> U \<Longrightarrow> scan_acc g U (city + 1) best cost"
  unfolding scan_acc_def by (auto simp add: less_Suc_eq split: option.splits)

lemma scan_acc_take:
  "scan_acc g U city best cost \<Longrightarrow> city \<in> U \<Longrightarrow> g city < cost \<Longrightarrow>
   scan_acc g U (city + 1) (Some city) (g city)"
  unfolding scan_acc_def by (auto simp add: less_Suc_eq split: option.splits)

lemma scan_acc_keep:
  "scan_acc g U city best cost \<Longrightarrow> city \<in> U \<Longrightarrow> \<not> g city < cost \<Longrightarrow>
   scan_acc g U (city + 1) best cost"
  unfolding scan_acc_def by (auto simp add: less_Suc_eq split: option.splits)

lemma next_city_scan:
  "scan_acc (\<lambda>c. add32 (d pos c) (DP (msk OR 2 ^ c) c)) (unvisited N msk) city best cost \<Longrightarrow>
   scan_acc (\<lambda>c. add32 (d pos c) (DP (msk OR 2 ^ c) c)) (unvisited N msk) (max city N)
     (fst (next_city d N DP msk pos city best cost)) (snd (next_city d N DP msk pos city best cost))"
proof (induction d N DP msk pos city best cost rule: next_city.induct)
  case (1 d N DP msk pos city bestCity bestCost)
  note unfold = next_city.simps [of d N DP msk pos city bestCity bestCost]
  let ?g = "\<lambda>c. add32 (d pos c) (DP (msk OR 2 ^ c) c)"
  show ?case
  proof (cases "city < N")
    case False
    with "1.prems" show ?thesis by (simp add: unfold max_def)
  next
    case True
    note lt = this
    then have mx: "max (city + 1) N = max city N" by simp
    show ?thesis
    proof (cases "msk AND push_bit city 1 = 0")
      case False
      then have "city \<notin> unvisited N msk" by (simp add: unvisited_def)
      with "1.prems" have "scan_acc ?g (unvisited N msk) (city + 1) bestCity bestCost"
        by (rule scan_acc_skip)
      from "1.IH"(3) [OF lt False this] lt False show ?thesis
        by (simp add: unfold mx)
    next
      case True
      note free = this
      with lt have c: "city \<in> unvisited N msk" by (simp add: unvisited_def)
      let ?cost = "add32 (d pos city) (DP (msk OR push_bit city 1) city)"
      have cost: "?cost = ?g city" by simp
      show ?thesis
      proof (cases "?cost < bestCost")
        case True
        with "1.prems" c have "scan_acc ?g (unvisited N msk) (city + 1) (Some city) ?cost"
          unfolding cost by (intro scan_acc_take)
        from "1.IH"(1) [OF lt free refl refl True this] True lt free show ?thesis
          by (simp add: unfold mx Let_def)
      next
        case False
        with "1.prems" c have "scan_acc ?g (unvisited N msk) (city + 1) bestCity bestCost"
          unfolding cost by (intro scan_acc_keep)
        from "1.IH"(2) [OF lt free refl refl False this] False lt free show ?thesis
          by (simp add: unfold mx Let_def)
      qed
    qed
  qed
qed

lemma next_city_result:
  fixes d :: matrix
  defines "g \<equiv> \<lambda>d DP msk pos c. add32 (d pos c) (DP (msk OR 2 ^ c) c)"
  assumes "\<exists>c \<in> unvisited N msk. g d DP msk pos c < INT_MAX"
  shows "\<exists>b \<in> unvisited N msk. fst (next_city d N DP msk pos 0 None INT_MAX) = Some b \<and>
     (\<forall>c \<in> unvisited N msk. g d DP msk pos b \<le> g d DP msk pos c)"
proof -
  have "scan_acc (g d DP msk pos) (unvisited N msk) 0 None INT_MAX"
    by (simp add: scan_acc_def)
  then have "scan_acc (g d DP msk pos) (unvisited N msk) (max 0 N)
     (fst (next_city d N DP msk pos 0 None INT_MAX)) (snd (next_city d N DP msk pos 0 None INT_MAX))"
    unfolding g_def by (rule next_city_scan)
  then have fin: "scan_acc (g d DP msk pos) (unvisited N msk) N
     (fst (next_city d N DP msk pos 0 None INT_MAX)) (snd (next_city d N DP msk pos 0 None INT_MAX))"
    by simp
  show ?thesis
  proof (cases "fst (next_city d N DP msk pos 0 None INT_MAX)")
    case None
    with fin assms(2) show ?thesis
      unfolding scan_acc_def by (auto dest: unvisited_less)
  next
    case (Some b)
    with fin show ?thesis
      unfolding scan_acc_def by (auto dest: unvisited_less)
  qed
qed

subsection \<open>The reconstruction follows a cheapest completion\<close>

lemma memo_inv_final:
  assumes "memo_inv d N DP" "good_state N (VISITED_ALL N) p"
  shows "DP (VISITED_ALL N) p = - 1"
  using assms unfolding memo_inv_def by blast

lemma route_choice:
  fixes B :: int
  assumes bd: "bounded_by d N B" and nb: "B * int N < INT_MAX"
    and gs: "good_state N msk pos" and inv: "memo_inv d N DP"
    and nf: "msk \<noteq> VISITED_ALL N" and ready: "DP msk pos \<noteq> - 1"
  shows "\<exists>b \<in> unvisited N msk. fst (next_city d N DP msk pos 0 None INT_MAX) = Some b \<and>
     step_cost d N msk pos b = best_completion d N msk pos \<and>
     (msk OR 2 ^ b \<noteq> VISITED_ALL N \<longrightarrow> DP (msk OR 2 ^ b) b \<noteq> - 1)"
proof -
  let ?U = "unvisited N msk"
  let ?g = "\<lambda>c. add32 (d pos c) (DP (msk OR 2 ^ c) c)"
  from gs have mN: "msk < 2 ^ N" and pN: "pos < N" by (simp_all add: good_state_def)
  from nf mN have ne: "?U \<noteq> {}" by (simp add: visited_all_iff)
  from inv gs ready have succ: "\<forall>c \<in> ?U. msk OR 2 ^ c = VISITED_ALL N \<or> DP (msk OR 2 ^ c) c \<noteq> - 1"
    unfolding memo_inv_def by blast
  from best_completion_step [OF ne, of d pos] obtain c1 where c1: "c1 \<in> ?U"
    and opt: "best_completion d N msk pos = step_cost d N msk pos c1"
    by (auto simp add: step_cost_def)
  show ?thesis
  proof (cases "\<exists>c \<in> ?U. msk OR 2 ^ c = VISITED_ALL N")
    case True
    then obtain c where c: "c \<in> ?U" and last: "msk OR 2 ^ c = VISITED_ALL N" by blast
    from good_state_visit [OF gs c] have gs': "good_state N (msk OR 2 ^ c) c" .
    then have "msk OR 2 ^ c < 2 ^ N" by (simp add: good_state_def)
    from visited_all_iff [OF this] last have "unvisited N (msk OR 2 ^ c) = {}" by simp
    then have "?U - {c} = {}" by (simp add: unvisited_visit)
    with c have U: "?U = {c}" by blast
    from memo_inv_final [OF inv] gs' last have "DP (msk OR 2 ^ c) c = - 1" by simp
    moreover from bd pN unvisited_less [OF c] have e: "0 \<le> d pos c" "d pos c \<le> B"
      by (simp_all add: bounded_by_def)
    moreover have "B \<le> B * int N"
      using e pN by (cases N) (simp_all add: algebra_simps)
    ultimately have "?g c = d pos c - 1" "d pos c - 1 < INT_MAX"
      using nb by (simp_all add: add32_def wrap32_id INT_MAX_def)
    then have "?g c < INT_MAX" by simp
    with c have "\<exists>c \<in> ?U. ?g c < INT_MAX" by (rule bexI [rotated])
    from next_city_result [where d = d and DP = DP and msk = msk and pos = pos and N = N, OF this] U
    have "fst (next_city d N DP msk pos 0 None INT_MAX) = Some c" by auto
    moreover from c1 U opt have "step_cost d N msk pos c = best_completion d N msk pos" by simp
    ultimately show ?thesis using c last by blast
  next
    case False
    have val: "?g c = step_cost d N msk pos c" "step_cost d N msk pos c < INT_MAX"
      "DP (msk OR 2 ^ c) c \<noteq> - 1" if c: "c \<in> ?U" for c
    proof -
      from False succ c show set: "DP (msk OR 2 ^ c) c \<noteq> - 1" by blast
      from good_state_visit [OF gs c] have "good_state N (msk OR 2 ^ c) c" .
      with inv set have "DP (msk OR 2 ^ c) c = best_completion d N (msk OR 2 ^ c) c"
        unfolding memo_inv_def by blast
      with step_cost_range [OF bd nb gs c]
      show "?g c = step_cost d N msk pos c" "step_cost d N msk pos c < INT_MAX"
        by simp_all
    qed
    with c1 have "\<exists>c \<in> ?U. ?g c < INT_MAX" by auto
    from next_city_result [where d = d and DP = DP and msk = msk and pos = pos and N = N, OF this] obtain b where b: "b \<in> ?U"
      and nc: "fst (next_city d N DP msk pos 0 None INT_MAX) = Some b"
      and least: "\<forall>c \<in> ?U. ?g b \<le> ?g c"
      by blast
    from least c1 val(1) [OF b] val(1) [OF c1]
    have "step_cost d N msk pos b \<le> step_cost d N msk pos c1" by auto
    moreover have "best_completion d N msk pos \<le> step_cost d N msk pos b"
      using best_completion_le_step [OF b, of d pos] by (simp add: step_cost_def)
    ultimately have "step_cost d N msk pos b = best_completion d N msk pos"
      using opt by simp
    with b nc val(3) [OF b] show ?thesis by blast
  qed
qed

lemma route_loop_correct:
  fixes B :: int
  shows "bounded_by d N B \<Longrightarrow> B * int N < INT_MAX \<Longrightarrow> good_state N msk pos \<Longrightarrow>
    memo_inv d N DP \<Longrightarrow> (msk \<noteq> VISITED_ALL N \<longrightarrow> DP msk pos \<noteq> - 1) \<Longrightarrow>
    \<exists>cs \<in> completions N msk. route_loop d N DP msk pos path = Inr (path @ cs) \<and>
      path_cost d (pos # cs @ [0]) = best_completion d N msk pos"
proof (induction d N DP msk pos path rule: route_loop.induct)
  case (1 d N DP msk pos path)
  note bd = "1.prems"(1) and nb = "1.prems"(2) and gs = "1.prems"(3) and inv = "1.prems"(4)
    and ready = "1.prems"(5)
  from gs have mN: "msk < 2 ^ N" by (simp add: good_state_def)
  show ?case
  proof (cases "msk = VISITED_ALL N")
    case True
    with visited_all_iff [OF mN] have empty: "unvisited N msk = {}" by simp
    have "route_loop d N DP msk pos path = Inr path"
      using True by (subst route_loop.simps) simp
    moreover have "[] \<in> completions N msk"
      using empty by (simp add: completions_all_visited)
    moreover have "path_cost d (pos # [] @ [0]) = best_completion d N msk pos"
      using empty by (simp add: best_completion_base)
    ultimately show ?thesis by (intro bexI [of _ "[]"]) simp_all
  next
    case False
    with ready have set: "DP msk pos \<noteq> - 1" by simp
    from route_choice [OF bd nb gs inv False set] obtain b where b: "b \<in> unvisited N msk"
      and nc: "fst (next_city d N DP msk pos 0 None INT_MAX) = Some b"
      and sc: "step_cost d N msk pos b = best_completion d N msk pos"
      and ready': "msk OR 2 ^ b \<noteq> VISITED_ALL N \<longrightarrow> DP (msk OR 2 ^ b) b \<noteq> - 1"
      by blast
    from good_state_visit [OF gs b] have gs': "good_state N (msk OR push_bit b 1) b" by simp
    from ready' have ready'': "msk OR push_bit b 1 \<noteq> VISITED_ALL N \<longrightarrow> DP (msk OR push_bit b 1) b \<noteq> - 1"
      by simp
    from "1.IH" [OF False nc bd nb gs' inv ready'']
    obtain cs where cs: "cs \<in> completions N (msk OR 2 ^ b)"
      and run: "route_loop d N DP (msk OR push_bit b 1) b (path @ [b]) = Inr ((path @ [b]) @ cs)"
      and cost: "path_cost d (b # cs @ [0]) = best_completion d N (msk OR 2 ^ b) b"
      by auto
    have "route_loop d N DP msk pos path = Inr (path @ b # cs)"
      using False nc run by (subst route_loop.simps) simp
    moreover have "b # cs \<in> completions N msk"
      using b cs by (rule completion_Cons)
    moreover have "path_cost d (pos # (b # cs) @ [0]) = best_completion d N msk pos"
      using cost sc by (simp add: step_cost_def)
    ultimately show ?thesis by (intro bexI [of _ "b # cs"]) simp_all
  qed
qed

subsection \<open>The solver from the start state\<close>

lemma unvisited_start: "unvisited N 1 = {1..<N}"
  by (auto simp add: unvisited_iff bit_Suc_0_iff)

lemma tours_completions: "tours N = (\<lambda>cs. 0 # cs @ [0]) ` completions N 1"
  unfolding tours_def completions_def unvisited_start by blast

lemma brute_force_min_start: "brute_force_min d N = best_completion d N 1 0"
  by (simp add: brute_force_min_def best_completion_def tours_completions image_image)

lemma good_state_start:
  assumes "1 \<le> N"
  shows "good_state N 1 0"
proof -
  from assms have "(1::nat) < 2 ^ N" by (intro one_less_power) simp_all
  with assms show ?thesis by (simp add: good_state_def bit_Suc_0_iff)
qed

lemma memo_inv_init: "memo_inv d N (DP_init N)"
  by (simp add: memo_inv_def DP_init_def good_state_def)

lemma small_bounded:
  assumes "valid_matrix d N" "small_distances d N"
  shows "bounded_by d N ((INT_MAX - 1) div int N)" "(INT_MAX - 1) div int N * int N < INT_MAX"
proof -
  from assms(1) have N: "0 < int N" by (simp add: valid_matrix_def)
  show "bounded_by d N ((INT_MAX - 1) div int N)"
    unfolding bounded_by_def
  proof (intro allI impI conjI)
    fix i j assume ij: "i < N" "j < N"
    with assms(1) show "0 \<le> d i j" by (simp add: valid_matrix_def)
    from ij assms(2) have "d i j * int N \<le> INT_MAX - 1" by (simp add: small_distances_def)
    with N have "d i j * int N div int N \<le> (INT_MAX - 1) div int N"
      by (intro zdiv_mono1) simp_all
    with N show "d i j \<le> (INT_MAX - 1) div int N"
      by simp
  qed
  have "(INT_MAX - 1) div int N * int N \<le> INT_MAX - 1"
    using div_mult_mod_eq [of "INT_MAX - 1" "int N"] pos_mod_sign [OF N, of "INT_MAX - 1"]
    by linarith
  then show "(INT_MAX - 1) div int N * int N < INT_MAX" by simp
qed

lemma tsp_from_start:
  assumes v: "valid_matrix d N" and s: "small_distances d N"
  shows "\<exists>DP. tsp d N (DP_init N) 1 0 = Inr (brute_force_min d N, DP) \<and> memo_inv d N DP \<and>
    (1 \<noteq> VISITED_ALL N \<longrightarrow> DP 1 0 \<noteq> - 1)"
proof -
  from v have N: "1 \<le> N" by (simp add: valid_matrix_def)
  from tsp_tsp_loop_correct(1) [OF small_bounded [OF v s] good_state_start [OF N] memo_inv_init]
  show ?thesis
    unfolding tsp_post_def brute_force_min_start by blast
qed

lemma tour_permutation:
  assumes "path \<in> tours N" "1 \<le> N"
  shows "hd path = 0" "last path = 0" "mset (butlast path) = mset [0..<N]"
proof -
  from assms(1) obtain cs where p: "path = 0 # cs @ [0]" and d: "distinct cs" and s: "set cs = {1..<N}"
    unfolding tours_def by blast
  show "hd path = 0" "last path = 0" by (simp_all add: p)
  have "butlast path = 0 # cs" by (simp add: p butlast_append)
  moreover have "distinct (0 # cs)" using d s by simp
  moreover have "set (0 # cs) = set [0..<N]" using s assms(2) by auto
  ultimately show "mset (butlast path) = mset [0..<N]"
    by (metis distinct_upt set_eq_iff_mset_eq_distinct)
qed

text \<open>
  Claim C2, as amended. For every valid distance matrix with \<open>N\<close> nodes whose entries,
  times \<open>N\<close>, stay below \<open>INT_MAX\<close>, \<open>tsp(1, 0)\<close> on the reset table returns, and its value
  is the least cost among all tours from node 0 through the other \<open>N - 1\<close> nodes and
  back: the brute-force minimum.
\<close>

theorem tsp_cost_is_brute_force_min:
  "valid_matrix d N \<Longrightarrow> small_distances d N \<Longrightarrow>
   \<exists>DP. tsp d N (DP_init N) 1 0 = Inr (brute_force_min d N, DP)"
  using tsp_from_start by blast

theorem tsp_cost_is_brute_force_min_witness:
  "valid_matrix (mat [[0, 10, 15, 20], [10, 0, 35, 25], [15, 35, 0, 30], [20, 25, 30, 0]]) 4 \<and>
   small_distances (mat [[0, 10, 15, 20], [10, 0, 35, 25], [15, 35, 0, 30], [20, 25, 30, 0]]) 4 \<and>
   brute_force_min (mat [[0, 10, 15, 20], [10, 0, 35, 25], [15, 35, 0, 30], [20, 25, 30, 0]]) 4 = 80"
proof -
  let ?d = "mat [[0, 10, 15, 20], [10, 0, 35, 25], [15, 35, 0, 30], [20, 25, 30, 0]]"
  have v: "valid_matrix ?d 4" by code_simp
  have s: "small_distances ?d 4" by code_simp
  have e: "map_sum id fst (tsp ?d 4 (DP_init 4) 1 0) = Inr 80" by code_simp
  from tsp_cost_is_brute_force_min [OF v s] e have "brute_force_min ?d 4 = 80" by auto
  with v s show ?thesis by simp
qed

text \<open>
  Claim C2 as stated fails on a valid matrix with a large entry: with
  \<open>d[0][1] = INT_MAX\<close> and \<open>d[1][0] = 0\<close> the only tour costs \<open>INT_MAX\<close>; no sum overflows,
  but the sum is not below the initial \<open>ans = INT_MAX\<close>, \<open>found\<close> stays false and \<open>tsp\<close>
  throws instead of reporting a cost.
\<close>

theorem tsp_throws_on_valid_matrix:
  "valid_matrix (mat [[0, 2147483647], [0, 0]]) 2 \<and>
   [0, 1, 0] \<in> tours 2 \<and>
   path_cost (mat [[0, 2147483647], [0, 0]]) [0, 1, 0] = 2147483647 \<and>
   tsp (mat [[0, 2147483647], [0, 0]]) 2 (DP_init 2) 1 0 = Inl NoValidPath"
proof -
  have "valid_matrix (mat [[0, 2147483647], [0, 0]]) 2" by code_simp
  moreover have "[0, 1, 0] \<in> tours 2"
    unfolding tours_def by (rule CollectI, rule exI [of _ "[1]"]) auto
  moreover have "path_cost (mat [[0, 2147483647], [0, 0]]) [0, 1, 0] = 2147483647"
    by (simp add: mat_def)
  moreover have "map_sum id fst (tsp (mat [[0, 2147483647], [0, 0]]) 2 (DP_init 2) 1 0) = Inl NoValidPath"
    by code_simp
  then have "tsp (mat [[0, 2147483647], [0, 0]]) 2 (DP_init 2) 1 0 = Inl NoValidPath"
    by (cases "tsp (mat [[0, 2147483647], [0, 0]]) 2 (DP_init 2) 1 0") simp_all
  ultimately show ?thesis by simp
qed

text \<open>
  Claim C1, as amended. For every valid distance matrix with \<open>N\<close> nodes whose entries,
  times \<open>N\<close>, stay below \<open>INT_MAX\<close>, the solver returns a cost and a path; the cost is
  the value of \<open>tsp(1, 0)\<close>; the path starts and ends at node 0 and, without its last
  entry, is a permutation of the nodes \<open>0..N-1\<close>; and the sum of the matrix entries
  along the path is the cost.
\<close>

theorem reconstructed_route_is_cheapest_tour:
  "valid_matrix d N \<Longrightarrow> small_distances d N \<Longrightarrow>
   \<exists>minCost path DP.
     tsp d N (DP_init N) 1 0 = Inr (minCost, DP) \<and>
     solveExactTour d N = Inr (minCost, path) \<and>
     path \<in> tours N \<and> hd path = 0 \<and> last path = 0 \<and> mset (butlast path) = mset [0..<N] \<and>
     path_cost d path = minCost"
proof -
  assume v: "valid_matrix d N" and s: "small_distances d N"
  from v have N: "1 \<le> N" by (simp add: valid_matrix_def)
  from tsp_from_start [OF v s] obtain DP
    where run: "tsp d N (DP_init N) 1 0 = Inr (brute_force_min d N, DP)"
      and inv: "memo_inv d N DP" and ready: "1 \<noteq> VISITED_ALL N \<longrightarrow> DP 1 0 \<noteq> - 1"
    by blast
  from route_loop_correct [OF small_bounded [OF v s] good_state_start [OF N] inv ready, of "[0]"]
  obtain cs where cs: "cs \<in> completions N 1"
    and route: "route_loop d N DP 1 0 [0] = Inr ([0] @ cs)"
    and cost: "path_cost d (0 # cs @ [0]) = best_completion d N 1 0"
    by blast
  let ?path = "0 # cs @ [0]"
  have t: "?path \<in> tours N" using cs by (simp add: tours_completions)
  have "solveExactTour d N = Inr (brute_force_min d N, ?path)"
    using run route by (simp add: solveExactTour_def)
  moreover have "path_cost d ?path = brute_force_min d N"
    by (simp only: cost brute_force_min_start)
  ultimately show ?thesis
    using run t tour_permutation [OF t N] by blast
qed

theorem reconstructed_route_is_cheapest_tour_witness:
  "valid_matrix (mat [[0, 10, 15, 20], [10, 0, 35, 25], [15, 35, 0, 30], [20, 25, 30, 0]]) 4 \<and>
   small_distances (mat [[0, 10, 15, 20], [10, 0, 35, 25], [15, 35, 0, 30], [20, 25, 30, 0]]) 4 \<and>
   solveExactTour (mat [[0, 10, 15, 20], [10, 0, 35, 25], [15, 35, 0, 30], [20, 25, 30, 0]]) 4
     = Inr (80, [0, 1, 3, 2, 0]) \<and>
   [0, 1, 3, 2, 0] \<in> tours 4 \<and>
   path_cost (mat [[0, 10, 15, 20], [10, 0, 35, 25], [15, 35, 0, 30], [20, 25, 30, 0]]) [0, 1, 3, 2, 0] = 80"
proof -
  let ?d = "mat [[0, 10, 15, 20], [10, 0, 35, 25], [15, 35, 0, 30], [20, 25, 30, 0]]"
  have v: "valid_matrix ?d 4" by code_simp
  have s: "small_distances ?d 4" by code_simp
  have e: "solveExactTour ?d 4 = Inr (80, [0, 1, 3, 2, 0])" by code_simp
  from reconstructed_route_is_cheapest_tour [OF v s] e
  have "[0, 1, 3, 2, 0] \<in> tours 4 \<and> path_cost ?d [0, 1, 3, 2, 0] = 80" by auto
  with v s e show ?thesis by simp
qed

text \<open>
  Claim C1 as stated fails on a valid matrix whose tour cost does not fit an \<open>int\<close>:
  with \<open>d[0][1] = INT_MAX\<close> and \<open>d[1][0] = 1\<close> the sum in \<open>tsp\<close> wraps around, the reported
  cost is \<open>INT_MIN\<close>, and the path \<open>0, 1, 0\<close> costs \<open>INT_MAX + 1\<close>.
\<close>

theorem reconstructed_route_cost_differs_on_overflow:
  "valid_matrix (mat [[0, 2147483647], [1, 0]]) 2 \<and>
   solveExactTour (mat [[0, 2147483647], [1, 0]]) 2 = Inr (- 2147483648, [0, 1, 0]) \<and>
   path_cost (mat [[0, 2147483647], [1, 0]]) [0, 1, 0] = 2147483648"
proof -
  have "valid_matrix (mat [[0, 2147483647], [1, 0]]) 2" by code_simp
  moreover have "solveExactTour (mat [[0, 2147483647], [1, 0]]) 2 = Inr (- 2147483648, [0, 1, 0])"
    by code_simp
  moreover have "path_cost (mat [[0, 2147483647], [1, 0]]) [0, 1, 0] = 2147483648"
    by (simp add: mat_def)
  ultimately show ?thesis by simp
qed

section \<open>The breadth-first search\<close>

lemma bfs_inv_enqueue:
  assumes inv: "bfs_inv r N s visited queue pf" and front: "front < length queue"
    and new: "\<not> visited v" and pos: "0 < r (queue ! front) v" and v: "v < N"
  shows "bfs_inv r N s (visited(v := True)) (queue @ [v]) (pf(v := int (queue ! front)))"
proof -
  from inv have ne: "queue \<noteq> []" and hd: "hd queue = s" and dist: "distinct queue"
    and vis: "set queue = {v. visited v}" and lt: "\<forall>v \<in> set queue. v < N"
    and par: "\<And>k. 0 < k \<Longrightarrow> k < length queue \<Longrightarrow>
        \<exists>j<k. pf (queue ! k) = int (queue ! j) \<and> 0 < r (queue ! j) (queue ! k)"
    unfolding bfs_inv_def by blast+
  from new vis have notin: "v \<notin> set queue" by simp
  let ?q = "queue @ [v]" and ?pf = "pf(v := int (queue ! front))"
  have old: "?q ! k = queue ! k" "queue ! k \<noteq> v" if "k < length queue" for k
    using that notin by (auto simp add: nth_append)
  have "\<exists>j<k. ?pf (?q ! k) = int (?q ! j) \<and> 0 < r (?q ! j) (?q ! k)"
    if k: "0 < k" "k < length ?q" for k
  proof (cases "k < length queue")
    case True
    from par [OF k(1) True] obtain j where j: "j < k" "pf (queue ! k) = int (queue ! j)"
      "0 < r (queue ! j) (queue ! k)" by blast
    with True old [of k] old [of j] show ?thesis
      by (intro exI [of _ j]) simp
  next
    case False
    with k have "k = length queue" by simp
    with front pos old [of front] show ?thesis
      by (intro exI [of _ front]) simp
  qed
  moreover have "set ?q = {w. (visited(v := True)) w}" using vis by auto
  ultimately show ?thesis
    unfolding bfs_inv_def using ne hd dist notin lt v by auto
qed

lemma bfs_scan_correct:
  "bfs_inv r N s visited queue pf \<Longrightarrow> front < length queue \<Longrightarrow> u = queue ! front \<Longrightarrow>
   bfs_closed r N visited queue front v \<Longrightarrow> \<not> visited t \<or> t = s \<Longrightarrow>
   bfs_scan r N t u v visited queue pf = (b, visited', queue', pf') \<Longrightarrow>
   bfs_inv r N s visited' queue' pf' \<and> take (length queue) queue' = queue \<and>
   (if b then visited' t \<and> t \<noteq> s
    else bfs_closed r N visited' queue' (front + 1) 0 \<and> (\<not> visited' t \<or> t = s))"
proof (induction r N t u v visited queue pf rule: bfs_scan.induct)
  case (1 r N t u v visited queue pf)
  note inv = "1.prems"(1) and front = "1.prems"(2) and u = "1.prems"(3) and cl = "1.prems"(4)
    and tu = "1.prems"(5) and run = "1.prems"(6)
  note unfold = bfs_scan.simps [of r N t u v visited queue pf]
  from inv have vis: "set queue = {v. visited v}" and hdq: "hd queue = s" and ne: "queue \<noteq> []"
    unfolding bfs_inv_def by blast+
  show ?case
  proof (cases "v < N")
    case False
    with run have res: "b = False" "visited' = visited" "queue' = queue" "pf' = pf"
      by (simp_all add: unfold)
    have "bfs_closed r N visited queue (front + 1) 0"
      using cl False unfolding bfs_closed_def by (auto simp add: less_Suc_eq)
    with res inv tu show ?thesis by simp
  next
    case True
    note lt = this
    show ?thesis
    proof (cases "\<not> visited v \<and> 0 < r u v")
      case False
      have cl': "bfs_closed r N visited queue front (v + 1)"
        using cl False u unfolding bfs_closed_def by (auto simp add: less_Suc_eq)
      from run lt False have "bfs_scan r N t u (v + 1) visited queue pf = (b, visited', queue', pf')"
        by (simp add: unfold)
      from "1.IH"(2) [OF lt False inv front u cl' tu this] show ?thesis .
    next
      case True
      note new = this
      let ?vis = "visited(v := True)" and ?q = "queue @ [v]" and ?pf = "pf(v := int u)"
      have inv': "bfs_inv r N s ?vis ?q ?pf"
        unfolding u using inv front new lt by (intro bfs_inv_enqueue) (simp_all add: u)
      have s_vis: "visited s"
        using vis hdq ne by (metis hd_in_set mem_Collect_eq)
      show ?thesis
      proof (cases "v = t")
        case True
        with run [unfolded unfold] lt new
        have res: "b = True" "visited' = ?vis" "queue' = ?q" "pf' = ?pf"
          by (simp_all add: Let_def)
        from True new s_vis have ts: "t \<noteq> s" by auto
        have a: "bfs_inv r N s visited' queue' pf'" unfolding res by (rule inv')
        have c: "take (length queue) queue' = queue" unfolding res by simp
        have e: "visited' t" unfolding res True [symmetric] by simp
        from a c e ts res(1) show ?thesis by simp
      next
        case False
        have front': "front < length ?q" using front by simp
        have u': "u = ?q ! front" using u front by (simp add: nth_append)
        have cl': "bfs_closed r N ?vis ?q front (v + 1)"
          using cl front u unfolding bfs_closed_def
          by (auto simp add: less_Suc_eq nth_append)
        have tu': "\<not> ?vis t \<or> t = s" using tu False by auto
        from run lt new False
        have "bfs_scan r N t u (v + 1) ?vis ?q ?pf = (b, visited', queue', pf')"
          by (simp add: unfold Let_def)
        from "1.IH"(1) [OF lt new refl refl refl False inv' front' u' cl' tu' this]
        have "bfs_inv r N s visited' queue' pf'" "take (length ?q) queue' = ?q"
          "if b then visited' t \<and> t \<noteq> s
           else bfs_closed r N visited' queue' (front + 1) 0 \<and> (\<not> visited' t \<or> t = s)"
          by blast+
        moreover have "take (length queue) queue' = queue"
        proof -
          have "take (length queue) queue' = take (length queue) (take (length ?q) queue')"
            by (simp add: min_def)
          also have "\<dots> = take (length queue) ?q"
            using \<open>take (length ?q) queue' = ?q\<close> by (rule arg_cong)
          finally show ?thesis by simp
        qed
        ultimately show ?thesis by blast
      qed
    qed
  qed
qed

lemma bfs_loop_correct:
  "bfs_inv r N s visited queue pf \<Longrightarrow> front \<le> length queue \<Longrightarrow>
   bfs_closed r N visited queue front 0 \<Longrightarrow> \<not> visited t \<or> t = s \<Longrightarrow>
   bfs_loop r N t front visited queue pf = (b, visited', queue', pf') \<Longrightarrow>
   bfs_inv r N s visited' queue' pf' \<and>
   (if b then visited' t \<and> t \<noteq> s
    else bfs_closed r N visited' queue' (length queue') 0 \<and> (\<not> visited' t \<or> t = s))"
proof (induction r N t front visited queue pf rule: bfs_loop.induct)
  case (1 r N t front visited queue pf)
  note inv = "1.prems"(1) and front = "1.prems"(2) and cl = "1.prems"(3)
    and tu = "1.prems"(4) and run = "1.prems"(5)
  note unfold = bfs_loop.simps [of r N t front visited queue pf]
  show ?case
  proof (cases "front < length queue")
    case False
    with front have fl: "front = length queue" by simp
    from run [unfolded unfold] False
    have res: "b = False" "visited' = visited" "queue' = queue" "pf' = pf"
      by simp_all
    from cl inv tu show ?thesis unfolding res fl by simp
  next
    case True
    obtain b1 vis1 q1 pf1 where scan: "bfs_scan r N t (queue ! front) 0 visited queue pf = (b1, vis1, q1, pf1)"
      by (metis prod_cases4)
    from bfs_scan_correct [OF inv True refl cl tu scan]
    have inv1: "bfs_inv r N s vis1 q1 pf1" and pre: "take (length queue) q1 = queue"
      and post: "if b1 then vis1 t \<and> t \<noteq> s
         else bfs_closed r N vis1 q1 (front + 1) 0 \<and> (\<not> vis1 t \<or> t = s)"
      by blast+
    show ?thesis
    proof (cases b1)
      case True
      with run [unfolded unfold] scan \<open>front < length queue\<close>
      have "b = True" "visited' = vis1" "queue' = q1" "pf' = pf1"
        by simp_all
      with inv1 post True show ?thesis by simp
    next
      case False
      with run [unfolded unfold] scan True
      have run': "bfs_loop r N t (front + 1) vis1 q1 pf1 = (b, visited', queue', pf')"
        by simp
      from pre have "length (take (length queue) q1) = length queue"
        by (rule arg_cong)
      then have "length queue \<le> length q1" by simp
      with True have front': "front + 1 \<le> length q1" by simp
      from post False have cl1: "bfs_closed r N vis1 q1 (front + 1) 0" and tu1: "\<not> vis1 t \<or> t = s"
        by simp_all
      from False have b1: "b1 = False" by simp
      note scan' = scan [symmetric]
      from "1.IH" [OF True scan' b1 refl refl inv1 front' cl1 tu1 run']
      show ?thesis .
    qed
  qed
qed

lemma bfs_start:
  assumes "s < N"
  shows "bfs_inv r N s ((\<lambda>i. False)(s := True)) [s] (pf(s := - 1))"
    "bfs_closed r N ((\<lambda>i. False)(s := True)) [s] 0 0"
    "\<not> ((\<lambda>i. False)(s := True)) t \<or> t = s"
  using assms by (auto simp add: bfs_inv_def bfs_closed_def)

lemma bfs_false:
  assumes s: "s < N" and run: "bfs r N pf s t = (False, pf')"
  shows "\<exists>S. src_closed r N S \<and> s \<in> S \<and> (t \<in> S \<longrightarrow> t = s)"
proof -
  obtain b vis q pf1 where loop: "bfs_loop r N t 0 ((\<lambda>i. False)(s := True)) [s] (pf(s := - 1)) = (b, vis, q, pf1)"
    by (metis prod_cases4)
  with run have b: "b = False" by (simp add: bfs_def)
  from bfs_loop_correct [OF bfs_start(1) [OF s] _ bfs_start(2) [OF s] bfs_start(3) [OF s] loop] b
  have inv: "bfs_inv r N s vis q pf1" and cl: "bfs_closed r N vis q (length q) 0"
    and tu: "\<not> vis t \<or> t = s"
    by simp_all
  from inv have q: "q \<noteq> []" "hd q = s" "set q = {v. vis v}" "\<forall>v \<in> set q. v < N"
    unfolding bfs_inv_def by blast+
  have "src_closed r N (set q)"
    unfolding src_closed_def
  proof (intro conjI ballI allI impI)
    show "set q \<subseteq> {0..<N}" using q(4) by auto
  next
    fix u w assume u: "u \<in> set q" and w: "w < N" "0 < r u w"
    from u obtain j where "j < length q" "q ! j = u" by (auto simp add: in_set_conv_nth)
    with cl w have "vis w" unfolding bfs_closed_def by blast
    with q(3) show "w \<in> set q" by simp
  qed
  moreover have "s \<in> set q" using q(1,2) by (metis hd_in_set)
  moreover have "t \<in> set q \<longrightarrow> t = s" using tu q(3) by auto
  ultimately show ?thesis by blast
qed

section \<open>The flow without an augmenting path\<close>

lemma bfs_inv_reach:
  assumes inv: "bfs_inv r N s vis q pf"
  shows "k < length q \<Longrightarrow> (pos_edge r N)\<^sup>*\<^sup>* s (q ! k)"
proof (induction k rule: less_induct)
  case (less k)
  from inv have q: "q \<noteq> []" "hd q = s" "\<forall>v \<in> set q. v < N"
    and par: "\<And>k. 0 < k \<Longrightarrow> k < length q \<Longrightarrow>
        \<exists>j<k. pf (q ! k) = int (q ! j) \<and> 0 < r (q ! j) (q ! k)"
    unfolding bfs_inv_def by blast+
  show ?case
  proof (cases "k = 0")
    case True
    with q show ?thesis by (simp add: hd_conv_nth)
  next
    case False
    with par [of k] less.prems obtain j where j: "j < k" "0 < r (q ! j) (q ! k)" by auto
    with less.prems have jl: "j < length q" by simp
    from q(3) jl less.prems have "q ! j < N" "q ! k < N" by simp_all
    with j have "pos_edge r N (q ! j) (q ! k)" by (simp add: pos_edge_def)
    with less.IH [OF j(1) jl] show ?thesis by simp
  qed
qed

lemma bfs_true:
  assumes s: "s < N" and run: "bfs r N pf s t = (True, pf')"
  shows "\<exists>vis q. bfs_inv r N s vis q pf' \<and> t \<in> set q \<and> t \<noteq> s"
proof -
  obtain b vis q pf1 where loop: "bfs_loop r N t 0 ((\<lambda>i. False)(s := True)) [s] (pf(s := - 1)) = (b, vis, q, pf1)"
    by (metis prod_cases4)
  with run have b: "b = True" "pf1 = pf'" by (simp_all add: bfs_def)
  from bfs_loop_correct [OF bfs_start(1) [OF s] _ bfs_start(2) [OF s] bfs_start(3) [OF s] loop] b
  have inv: "bfs_inv r N s vis q pf'" and t: "vis t" "t \<noteq> s"
    by simp_all
  from inv t(1) have "t \<in> set q" unfolding bfs_inv_def by blast
  with inv t(2) show ?thesis by blast
qed

lemma bfs_true_reach:
  assumes s: "s < N" and run: "bfs r N pf s t = (True, pf')"
  shows "(pos_edge r N)\<^sup>*\<^sup>* s t" "t \<noteq> s"
proof -
  from bfs_true [OF s run] obtain vis q where inv: "bfs_inv r N s vis q pf'"
    and t: "t \<in> set q" "t \<noteq> s" by blast
  from t(1) obtain k where "k < length q" "q ! k = t" by (auto simp add: in_set_conv_nth)
  with bfs_inv_reach [OF inv, of k] show "(pos_edge r N)\<^sup>*\<^sup>* s t" by simp
  from t(2) show "t \<noteq> s" .
qed

lemma pos_edge_initial: "pos_edge (initial_residual c N) N = pos_edge c N"
  by (auto simp add: pos_edge_def initial_residual_def fun_eq_iff)

text \<open>
  Claim C8. If the source is the sink (\<open>N = 1\<close>), or no path of edges with strictly
  positive capacity leads from node 0 to node \<open>N - 1\<close>, the flow computation returns
  with the flow 0: the first search fails and the loop is not entered.
\<close>

theorem no_path_gives_zero_flow:
  assumes "1 \<le> N" and "N = 1 \<or> \<not> (pos_edge capacityMatrix N)\<^sup>*\<^sup>* 0 (N - 1)"
  shows "computeMaxFlow capacityMatrix N = Some 0"
proof -
  let ?r = "initial_residual capacityMatrix N"
  from assms(1) have s: "0 < N" by simp
  obtain b pf' where run: "bfs ?r N (\<lambda>i. 0) 0 (N - 1) = (b, pf')"
    by (rule prod.exhaust)
  have nb: "\<not> b"
  proof
    assume b
    with run have run': "bfs ?r N (\<lambda>i. 0) 0 (N - 1) = (True, pf')" by simp
    from bfs_true_reach(1) [OF s run']
    have p: "(pos_edge capacityMatrix N)\<^sup>*\<^sup>* 0 (N - 1)"
      by (simp only: pos_edge_initial)
    from bfs_true_reach(2) [OF s run'] have ne: "N - 1 \<noteq> 0" .
    from ne have "N \<noteq> 1" by simp
    with assms(2) have "\<not> (pos_edge capacityMatrix N)\<^sup>*\<^sup>* 0 (N - 1)" by blast
    with p show False by blast
  qed
  have "flow_loop N ?r (\<lambda>i. 0) 0 = Some 0"
    by (subst flow_loop.simps) (simp only: run nb prod.case if_False)
  then show ?thesis
    by (simp only: computeMaxFlow_def)
qed

theorem no_path_gives_zero_flow_witness:
  "(1::nat) \<le> 1 \<and> computeMaxFlow (mat [[5]]) 1 = Some 0 \<and>
   (1::nat) \<le> 3 \<and> \<not> (pos_edge (mat [[0, 4, 0], [0, 0, 0], [0, 7, 0]]) 3)\<^sup>*\<^sup>* 0 (3 - 1) \<and>
   computeMaxFlow (mat [[0, 4, 0], [0, 0, 0], [0, 7, 0]]) 3 = Some 0"
proof -
  have a: "computeMaxFlow (mat [[5]]) 1 = Some 0"
    using no_path_gives_zero_flow [of 1 "mat [[5]]"] by simp
  let ?c = "mat [[0, 4, 0], [0, 0, 0], [0, 7, 0]]"
  have edge: "z = 1" if "pos_edge ?c 3 y z" for y z
  proof -
    from that have "y < 3" "z < 3" "0 < ?c y z" by (simp_all add: pos_edge_def)
    then have "y = 0 \<or> y = 1 \<or> y = 2" "z = 0 \<or> z = 1 \<or> z = 2" by auto
    with \<open>0 < ?c y z\<close> show ?thesis by (auto simp add: mat_def)
  qed
  have reach: "x = 0 \<or> x = 1" if "(pos_edge ?c 3)\<^sup>*\<^sup>* 0 x" for x
    using that by (induction rule: rtranclp_induct) (auto dest: edge)
  have n: "\<not> (pos_edge ?c 3)\<^sup>*\<^sup>* 0 (3 - 1)"
  proof
    assume "(pos_edge ?c 3)\<^sup>*\<^sup>* 0 (3 - 1)"
    from reach [OF this] show False by simp
  qed
  from no_path_gives_zero_flow [of 3 ?c] n have "computeMaxFlow ?c 3 = Some 0" by simp
  with a n show ?thesis by simp
qed

section \<open>The augmenting path\<close>

lemma parent_walk_hd: "parent_walk pf v ns \<Longrightarrow> ns \<noteq> [] \<and> hd ns = v"
  by (induction rule: parent_walk.induct) simp_all

lemma parent_walk_Cons:
  assumes "parent_walk pf v ns"
  obtains rest where "ns = v # rest"
  using parent_walk_hd [OF assms] by (cases ns) auto

lemma path_min_walk:
  "parent_walk pf v ns \<Longrightarrow> path_min r pf v a = Some (bottleneck r ns a)"
proof (induction arbitrary: a rule: parent_walk.induct)
  case at_source
  show ?case by (subst path_min.simps) simp
next
  case (to_parent v ns)
  from to_parent.hyps(3) obtain rest where ns: "ns = nat (pf v) # rest" by (rule parent_walk_Cons)
  have "path_min r pf v a = path_min r pf (nat (pf v)) (min a (r (nat (pf v)) v))"
    using to_parent.hyps(1,2) by (subst path_min.simps) simp
  also have "\<dots> = Some (bottleneck r ns (min a (r (nat (pf v)) v)))"
    by (rule to_parent.IH)
  finally show ?case by (simp add: ns)
qed

lemma path_push_walk:
  "parent_walk pf v ns \<Longrightarrow> path_push r pf v f = Some (push_all r ns f)"
proof (induction arbitrary: r rule: parent_walk.induct)
  case at_source
  show ?case by (subst path_push.simps) simp
next
  case (to_parent v ns)
  from to_parent.hyps(3) obtain rest where ns: "ns = nat (pf v) # rest" by (rule parent_walk_Cons)
  have "path_push r pf v f = path_push (push_edge r (nat (pf v)) v f) pf (nat (pf v)) f"
    using to_parent.hyps(1,2) by (subst path_push.simps) simp
  also have "\<dots> = Some (push_all (push_edge r (nat (pf v)) v f) ns f)"
    by (rule to_parent.IH)
  finally show ?case by (simp add: ns)
qed

lemma bfs_inv_walk:
  assumes inv: "bfs_inv r N 0 vis q pf"
  shows "k < length q \<Longrightarrow>
    \<exists>ns. parent_walk pf (q ! k) ns \<and> distinct ns \<and> set ns \<subseteq> {q ! j | j. j \<le> k} \<and> last ns = 0 \<and>
      (\<forall>(u, v) \<in> set (path_edges ns). 0 < r u v)"
proof (induction k rule: less_induct)
  case (less k)
  from inv have q: "q \<noteq> []" "hd q = 0" "distinct q"
    and par: "\<And>k. 0 < k \<Longrightarrow> k < length q \<Longrightarrow>
        \<exists>j<k. pf (q ! k) = int (q ! j) \<and> 0 < r (q ! j) (q ! k)"
    unfolding bfs_inv_def by blast+
  from q have q0: "q ! 0 = 0" by (simp add: hd_conv_nth)
  show ?case
  proof (cases "k = 0")
    case True
    have "parent_walk pf 0 [0]" by (rule parent_walk.at_source)
    with True q0 show ?thesis by (intro exI [of _ "[0]"]) auto
  next
    case False
    with par [of k] less.prems obtain j where j: "j < k" "pf (q ! k) = int (q ! j)"
      "0 < r (q ! j) (q ! k)" by auto
    with less.prems have jl: "j < length q" by simp
    from less.IH [OF j(1) jl] obtain ns where ns: "parent_walk pf (q ! j) ns" "distinct ns"
      "set ns \<subseteq> {q ! i | i. i \<le> j}" "last ns = 0" "\<forall>(u, v) \<in> set (path_edges ns). 0 < r u v"
      by blast
    from ns(1) obtain rest where split: "ns = q ! j # rest" by (rule parent_walk_Cons)
    have ne0: "q ! k \<noteq> 0"
      using q(3) q0 False less.prems by (metis nth_eq_iff_index_eq length_greater_0_conv q(1))
    have notin: "q ! k \<notin> set ns"
    proof
      assume "q ! k \<in> set ns"
      with ns(3) obtain i where "i \<le> j" "q ! k = q ! i" by blast
      with q(3) less.prems j(1) show False
        by (simp add: nth_eq_iff_index_eq)
    qed
    have "parent_walk pf (q ! k) (q ! k # ns)"
      using ne0 j(2) ns(1) by (intro parent_walk.to_parent) simp_all
    moreover have "distinct (q ! k # ns)" using ns(2) notin by simp
    moreover have "set (q ! k # ns) \<subseteq> {q ! i | i. i \<le> k}"
    proof
      fix x assume "x \<in> set (q ! k # ns)"
      then consider "x = q ! k" | "x \<in> set ns" by auto
      then show "x \<in> {q ! i | i. i \<le> k}"
      proof cases
        case 1
        then show ?thesis by blast
      next
        case 2
        with ns(3) obtain i where "i \<le> j" "x = q ! i" by blast
        with j(1) have "i \<le> k" by simp
        with \<open>x = q ! i\<close> show ?thesis by blast
      qed
    qed
    moreover have "last (q ! k # ns) = 0" using ns(4) split by simp
    moreover have "\<forall>(u, v) \<in> set (path_edges (q ! k # ns)). 0 < r u v"
      using ns(5) j(3) by (simp add: split)
    ultimately show ?thesis by blast
  qed
qed

lemma bottleneck_le: "bottleneck r ns a \<le> a"
  by (induction r ns a rule: bottleneck.induct) (auto intro: order_trans)

lemma bottleneck_le_edge:
  "(u, v) \<in> set (path_edges ns) \<Longrightarrow> bottleneck r ns a \<le> r u v"
proof (induction r ns a rule: bottleneck.induct)
  case (1 r v' u' ns a)
  show ?case
  proof (cases "(u, v) = (u', v')")
    case True
    have "bottleneck r (v' # u' # ns) a \<le> min a (r u' v')"
      using bottleneck_le [of r "u' # ns" "min a (r u' v')"] by simp
    with True show ?thesis by simp
  next
    case False
    with "1.prems" have "(u, v) \<in> set (path_edges (u' # ns))" by auto
    from "1.IH" [OF this] show ?thesis by simp
  qed
qed simp_all

lemma bottleneck_pos:
  "0 < a \<Longrightarrow> \<forall>(u, v) \<in> set (path_edges ns). 0 < r u v \<Longrightarrow> 0 < bottleneck r ns a"
  by (induction r ns a rule: bottleneck.induct) simp_all

lemma bottleneck_Min:
  "bottleneck r ns a = Min (insert a ((\<lambda>(u, v). r u v) ` set (path_edges ns)))"
proof (induction r ns a rule: bottleneck.induct)
  case (1 r v u ns a)
  have "Min (insert a ((\<lambda>(u, v). r u v) ` set (path_edges (v # u # ns))))
      = Min (insert a (insert (r u v) ((\<lambda>(u, v). r u v) ` set (path_edges (u # ns)))))"
    by simp
  also have "\<dots> = Min (insert (min a (r u v)) ((\<lambda>(u, v). r u v) ` set (path_edges (u # ns))))"
    by (cases "set (path_edges (u # ns)) = {}") (simp_all add: min.assoc)
  finally show ?case using 1 by simp
qed simp_all

section \<open>One augmentation\<close>

lemma wrap32_id': "- 2147483648 \<le> x \<Longrightarrow> x \<le> 2147483647 \<Longrightarrow> wrap32 x = x"
  by (simp add: wrap32_def)

lemma push_edge_exact:
  assumes ok: "res_ok c r" and pb: "pair_bounded c" and uv: "u \<noteq> v" and f: "0 < f" "f \<le> r u v"
  shows "push_edge r u v f =
    (\<lambda>a b. if a = u \<and> b = v then r u v - f else if a = v \<and> b = u then r v u + f else r a b)"
proof -
  from ok have nn: "0 \<le> r v u" "0 \<le> r u v" and sum: "r u v + r v u = c u v + c v u"
    unfolding res_ok_def by blast+
  from pb have "c u v + c v u \<le> INT_MAX" unfolding pair_bounded_def by blast
  with sum have le: "r u v + r v u \<le> 2147483647" by (simp add: INT_MAX_def)
  have s: "sub32 (r u v) f = r u v - f"
    unfolding sub32_def using f nn le by (intro wrap32_id') linarith+
  have a: "add32 (r v u) f = r v u + f"
    unfolding add32_def using f nn le by (intro wrap32_id') linarith+
  show ?thesis
    using uv by (auto simp add: push_edge_def Let_def s a fun_eq_iff)
qed

lemma res_ok_push:
  assumes ok: "res_ok c r" and pb: "pair_bounded c" and uv: "u \<noteq> v" and f: "0 < f" "f \<le> r u v"
  shows "res_ok c (push_edge r u v f)"
proof -
  note ex = push_edge_exact [OF assms]
  from ok have nn: "\<And>a b. 0 \<le> r a b" and sum: "\<And>a b. r a b + r b a = c a b + c b a"
    unfolding res_ok_def by blast+
  have "0 \<le> push_edge r u v f a b" for a b
    unfolding ex using nn [of a b] nn [of v u] f by auto
  moreover have "push_edge r u v f a b + push_edge r u v f b a = c a b + c b a" for a b
    unfolding ex using sum [of a b] sum [of u v] sum [of v u] uv by auto
  ultimately show ?thesis unfolding res_ok_def by blast
qed

lemma sum_single:
  fixes x :: int
  assumes "finite T"
  shows "(\<Sum>b \<in> T. if b = v then x else 0) = (if v \<in> T then x else 0)"
  using assms by (simp add: sum.delta)

lemma cut_delta:
  fixes x :: int
  assumes "finite S" "finite T"
  shows "(\<Sum>a \<in> S. \<Sum>b \<in> T. if a = u \<and> b = v then x else 0) = (if u \<in> S \<and> v \<in> T then x else 0)"
proof -
  have "(\<Sum>b \<in> T. if a = u \<and> b = v then x else 0) = (if a = u then (if v \<in> T then x else 0) else 0)" for a
    using assms(2) by (cases "a = u") (simp_all add: sum.delta)
  then have "(\<Sum>a \<in> S. \<Sum>b \<in> T. if a = u \<and> b = v then x else 0)
      = (\<Sum>a \<in> S. if a = u then (if v \<in> T then x else 0) else 0)"
    by simp
  also have "\<dots> = (if u \<in> S \<and> v \<in> T then x else 0)"
    using assms(1) by (simp add: sum.delta)
  finally show ?thesis .
qed

lemma cut_push:
  assumes ok: "res_ok c r" and pb: "pair_bounded c" and uv: "u \<noteq> v" and f: "0 < f" "f \<le> r u v"
    and N: "u < N" "v < N" and S: "S \<subseteq> {0..<N}"
  shows "cut_capacity (push_edge r u v f) N S = cut_capacity r N S - f * (side S u - side S v)"
proof -
  let ?T = "{0..<N} - S"
  from S have fin: "finite S" "finite ?T" by (auto intro: finite_subset)
  let ?d1 = "\<lambda>a b. if a = u \<and> b = v then - f else 0"
  let ?d2 = "\<lambda>a b. if a = v \<and> b = u then f else 0"
  have ex: "push_edge r u v f a b = r a b + ?d1 a b + ?d2 a b" for a b
    unfolding push_edge_exact [OF ok pb uv f] using uv by auto
  have "cut_capacity (push_edge r u v f) N S
      = (\<Sum>a \<in> S. \<Sum>b \<in> ?T. r a b) + (\<Sum>a \<in> S. \<Sum>b \<in> ?T. ?d1 a b) + (\<Sum>a \<in> S. \<Sum>b \<in> ?T. ?d2 a b)"
    unfolding cut_capacity_def ex by (simp add: sum.distrib)
  also have "\<dots> = cut_capacity r N S + (if u \<in> S \<and> v \<in> ?T then - f else 0)
      + (if v \<in> S \<and> u \<in> ?T then f else 0)"
    unfolding cut_capacity_def cut_delta [OF fin] by simp
  also have "\<dots> = cut_capacity r N S - f * (side S u - side S v)"
    using N by (auto simp add: side_def)
  finally show ?thesis .
qed

lemma path_edges_nodes:
  "(a, b) \<in> set (path_edges ns) \<Longrightarrow> a \<in> set ns \<and> b \<in> set ns"
  by (induction ns rule: path_edges.induct) auto

lemma push_all_correct:
  assumes pb: "pair_bounded c" and f: "0 < f"
  shows "res_ok c r \<Longrightarrow> distinct ns \<Longrightarrow> set ns \<subseteq> {0..<N} \<Longrightarrow> ns \<noteq> [] \<Longrightarrow>
    \<forall>(u, v) \<in> set (path_edges ns). f \<le> r u v \<Longrightarrow>
    res_ok c (push_all r ns f) \<and>
    (\<forall>S. S \<subseteq> {0..<N} \<longrightarrow>
       cut_capacity (push_all r ns f) N S = cut_capacity r N S - f * (side S (last ns) - side S (hd ns))) \<and>
    (\<forall>a b. push_all r ns f a b =
       (if (a, b) \<in> set (path_edges ns) then r a b - f
        else if (b, a) \<in> set (path_edges ns) then r a b + f else r a b))"
proof (induction ns arbitrary: r rule: induct_list012)
  case 1
  then show ?case by simp
next
  case (2 x)
  then show ?case by simp
next
  case (3 v u ns)
  note ok = "3.prems"(1) and dist = "3.prems"(2) and sub = "3.prems"(3) and le = "3.prems"(5)
  from dist have uv: "u \<noteq> v" and vn: "v \<notin> set (u # ns)" by auto
  from le have fle: "f \<le> r u v" by simp
  from sub have N: "u < N" "v < N" by simp_all
  let ?r1 = "push_edge r u v f"
  let ?E = "set (path_edges (u # ns))"
  note ex = push_edge_exact [OF ok pb uv f fle]
  have ok1: "res_ok c ?r1" using ok pb uv f fle by (rule res_ok_push)
  have away: "a \<noteq> v \<and> b \<noteq> v" if "(a, b) \<in> ?E" for a b
    using path_edges_nodes [OF that] vn by auto
  have same: "?r1 a b = r a b" if "(a, b) \<in> ?E \<or> (b, a) \<in> ?E" for a b
    using that away [of a b] away [of b a] unfolding ex by auto
  have le1: "\<forall>(u', v') \<in> ?E. f \<le> ?r1 u' v'"
    using le same by auto
  from dist sub have pre: "distinct (u # ns)" "set (u # ns) \<subseteq> {0..<N}" "u # ns \<noteq> []" by simp_all
  from "3.IH"(2) [OF ok1 pre le1]
  have ih1: "res_ok c (push_all ?r1 (u # ns) f)"
    and ih2: "\<And>S. S \<subseteq> {0..<N} \<Longrightarrow> cut_capacity (push_all ?r1 (u # ns) f) N S
        = cut_capacity ?r1 N S - f * (side S (last (u # ns)) - side S u)"
    and ih3: "\<And>a b. push_all ?r1 (u # ns) f a b =
       (if (a, b) \<in> ?E then ?r1 a b - f else if (b, a) \<in> ?E then ?r1 a b + f else ?r1 a b)"
    by simp_all
  have step: "push_all r (v # u # ns) f = push_all ?r1 (u # ns) f" by simp
  have c1: "res_ok c (push_all r (v # u # ns) f)" unfolding step by (rule ih1)
  have c2: "cut_capacity (push_all r (v # u # ns) f) N S
      = cut_capacity r N S - f * (side S (last (v # u # ns)) - side S (hd (v # u # ns)))"
    if S: "S \<subseteq> {0..<N}" for S
  proof -
    have "cut_capacity (push_all r (v # u # ns) f) N S
        = cut_capacity ?r1 N S - f * (side S (last (u # ns)) - side S u)"
      unfolding step by (rule ih2 [OF S])
    also have "cut_capacity ?r1 N S = cut_capacity r N S - f * (side S u - side S v)"
      using ok pb uv f fle N S by (rule cut_push)
    finally show ?thesis by (simp add: algebra_simps)
  qed
  have c3: "push_all r (v # u # ns) f a b =
       (if (a, b) \<in> set (path_edges (v # u # ns)) then r a b - f
        else if (b, a) \<in> set (path_edges (v # u # ns)) then r a b + f else r a b)" for a b
  proof -
    have base: "push_all r (v # u # ns) f a b =
       (if (a, b) \<in> ?E then ?r1 a b - f else if (b, a) \<in> ?E then ?r1 a b + f else ?r1 a b)"
      unfolding step by (rule ih3)
    have r1: "?r1 a b = (if a = u \<and> b = v then r u v - f else if a = v \<and> b = u then r v u + f else r a b)"
      by (simp add: ex)
    have e1: "(a, b) \<in> set (path_edges (v # u # ns)) \<longleftrightarrow> (a = u \<and> b = v) \<or> (a, b) \<in> ?E"
      by auto
    have e2: "(b, a) \<in> set (path_edges (v # u # ns)) \<longleftrightarrow> (a = v \<and> b = u) \<or> (b, a) \<in> ?E"
      by auto
    consider "a = u \<and> b = v" | "a = v \<and> b = u" | "\<not> (a = u \<and> b = v)" "\<not> (a = v \<and> b = u)" by blast
    then show ?thesis
    proof cases
      case 1
      then have n: "(a, b) \<notin> ?E" "(b, a) \<notin> ?E" using away [of a b] away [of b a] by auto
      from 1 have "?r1 a b = r a b - f" unfolding r1 by simp
      with n have "push_all r (v # u # ns) f a b = r a b - f" unfolding base by simp
      moreover from 1 have "(a, b) \<in> set (path_edges (v # u # ns))" unfolding e1 by simp
      ultimately show ?thesis by (simp only: if_True if_False)
    next
      case 2
      then have n: "(a, b) \<notin> ?E" "(b, a) \<notin> ?E" using away [of a b] away [of b a] by auto
      from 2 uv have "?r1 a b = r a b + f" unfolding r1 by simp
      with n have "push_all r (v # u # ns) f a b = r a b + f" unfolding base by simp
      moreover from 2 uv n have "(a, b) \<notin> set (path_edges (v # u # ns))" unfolding e1 by simp
      moreover from 2 have "(b, a) \<in> set (path_edges (v # u # ns))" unfolding e2 by simp
      ultimately show ?thesis by (simp only: if_True if_False)
    next
      case 3
      then have "(if a = u \<and> b = v then r u v - f
          else if a = v \<and> b = u then r v u + f else r a b) = r a b"
        by auto
      then have "?r1 a b = r a b" by (simp only: r1)
      then have "push_all r (v # u # ns) f a b =
         (if (a, b) \<in> ?E then r a b - f else if (b, a) \<in> ?E then r a b + f else r a b)"
        unfolding base by simp
      moreover from 3 have "(a, b) \<in> set (path_edges (v # u # ns)) \<longleftrightarrow> (a, b) \<in> ?E"
        unfolding e1 by blast
      moreover from 3 have "(b, a) \<in> set (path_edges (v # u # ns)) \<longleftrightarrow> (b, a) \<in> ?E"
        unfolding e2 by blast
      ultimately show ?thesis by (simp only:)
    qed
  qed
  show ?case
  proof (intro conjI allI impI)
    show "res_ok c (push_all r (v # u # ns) f)" by (rule c1)
  next
    fix S assume "S \<subseteq> {0..<N}"
    then show "cut_capacity (push_all r (v # u # ns) f) N S
      = cut_capacity r N S - f * (side S (last (v # u # ns)) - side S (hd (v # u # ns)))"
      by (rule c2)
  next
    fix a b
    show "push_all r (v # u # ns) f a b =
       (if (a, b) \<in> set (path_edges (v # u # ns)) then r a b - f
        else if (b, a) \<in> set (path_edges (v # u # ns)) then r a b + f else r a b)"
      by (rule c3)
  qed
qed

lemma cut_capacity_nonneg: "res_ok c r \<Longrightarrow> 0 \<le> cut_capacity r N S"
  unfolding cut_capacity_def res_ok_def by (intro sum_nonneg) blast

lemma cut_capacity_initial: "cut_capacity (initial_residual c N) N S = cut_capacity c N S" if "S \<subseteq> {0..<N}"
  unfolding cut_capacity_def initial_residual_def
  using that by (intro sum.cong refl) auto

lemma res_ok_initial: "valid_matrix c N \<Longrightarrow> res_ok (initial_residual c N) (initial_residual c N)"
  by (auto simp add: res_ok_def initial_residual_def valid_matrix_def)

lemma pair_bounded_initial:
  "valid_matrix c N \<Longrightarrow> pair_fits_int c N \<Longrightarrow> pair_bounded (initial_residual c N)"
  by (auto simp add: pair_bounded_def pair_fits_int_def initial_residual_def valid_matrix_def INT_MAX_def)

lemma augment_path:
  assumes ok: "res_ok c r" and pb: "pair_bounded c" and N: "0 < N"
    and run: "bfs r N pf 0 (N - 1) = (True, pf')"
  shows "\<exists>ns. parent_walk pf' (N - 1) ns \<and> last ns = 0 \<and> distinct ns \<and> set ns \<subseteq> {0..<N} \<and>
      set (path_edges ns) \<noteq> {} \<and> (\<forall>(u, v) \<in> set (path_edges ns). 0 < r u v) \<and>
      0 < path_bottleneck r ns \<and>
      path_min r pf' (N - 1) INT_MAX = Some (path_bottleneck r ns) \<and>
      path_push r pf' (N - 1) (path_bottleneck r ns) = Some (push_all r ns (path_bottleneck r ns)) \<and>
      res_ok c (push_all r ns (path_bottleneck r ns)) \<and>
      (\<forall>S. is_cut N S \<longrightarrow> cut_capacity (push_all r ns (path_bottleneck r ns)) N S
          = cut_capacity r N S - path_bottleneck r ns) \<and>
      (\<forall>a b. push_all r ns (path_bottleneck r ns) a b =
         (if (a, b) \<in> set (path_edges ns) then r a b - path_bottleneck r ns
          else if (b, a) \<in> set (path_edges ns) then r a b + path_bottleneck r ns else r a b))"
proof -
  from bfs_true [OF N run] obtain vis q where inv: "bfs_inv r N 0 vis q pf'"
    and t: "N - 1 \<in> set q" "N - 1 \<noteq> 0" by blast
  from t(1) obtain k where k: "k < length q" "q ! k = N - 1" by (auto simp add: in_set_conv_nth)
  from bfs_inv_walk [OF inv k(1)] k(2) obtain ns where walk: "parent_walk pf' (N - 1) ns"
    and dist: "distinct ns" and sub: "set ns \<subseteq> {q ! j | j. j \<le> k}" and last: "last ns = 0"
    and pos: "\<forall>(u, v) \<in> set (path_edges ns). 0 < r u v"
    by auto
  from inv have "\<forall>v \<in> set q. v < N" unfolding bfs_inv_def by blast
  have nodes: "set ns \<subseteq> {0..<N}"
  proof
    fix x assume "x \<in> set ns"
    with sub obtain j where "j \<le> k" "x = q ! j" by blast
    with k(1) have "x \<in> set q" by simp
    with \<open>\<forall>v \<in> set q. v < N\<close> show "x \<in> {0..<N}" by simp
  qed
  from parent_walk_hd [OF walk] have ne: "ns \<noteq> []" and hd: "hd ns = N - 1" by simp_all
  from ne hd last t(2) obtain u rest where split: "ns = (N - 1) # u # rest"
    by (cases ns; cases "tl ns") auto
  then have edges: "set (path_edges ns) \<noteq> {}" by simp
  from ok have nn: "\<And>a b. 0 \<le> r a b" and sum: "\<And>a b. r a b + r b a = c a b + c b a"
    unfolding res_ok_def by blast+
  have small: "r a b \<le> INT_MAX" for a b
  proof -
    from pb have "c a b + c b a \<le> INT_MAX" unfolding pair_bounded_def by blast
    with nn [of b a] sum [of a b] show ?thesis by linarith
  qed
  let ?X = "(\<lambda>(u, v). r u v) ` set (path_edges ns)"
  have "Min (insert INT_MAX ?X) = min INT_MAX (Min ?X)"
    using edges by (intro Min_insert) simp_all
  also have "Min ?X \<le> INT_MAX"
  proof -
    from edges have "\<exists>e. e \<in> set (path_edges ns)" by (simp only: ex_in_conv not_False_eq_True)
    then obtain e where e: "e \<in> set (path_edges ns)" ..
    have "Min ?X \<le> (\<lambda>(u, v). r u v) e" using e by (intro Min_le) simp_all
    also have "\<dots> \<le> INT_MAX" using small by (cases e) simp
    finally show ?thesis .
  qed
  then have "min INT_MAX (Min ?X) = Min ?X" by simp
  finally have bn: "bottleneck r ns INT_MAX = path_bottleneck r ns"
    unfolding bottleneck_Min path_bottleneck_def .
  let ?f = "path_bottleneck r ns"
  have fpos: "0 < ?f"
    unfolding bn [symmetric] using pos by (intro bottleneck_pos) (simp_all add: INT_MAX_def)
  have fle: "\<forall>(u, v) \<in> set (path_edges ns). ?f \<le> r u v"
    unfolding bn [symmetric] using bottleneck_le_edge by blast
  from push_all_correct [OF pb fpos ok dist nodes ne fle]
  have ok': "res_ok c (push_all r ns ?f)"
    and cut: "\<And>S. S \<subseteq> {0..<N} \<Longrightarrow> cut_capacity (push_all r ns ?f) N S
        = cut_capacity r N S - ?f * (side S (last ns) - side S (hd ns))"
    and entries: "\<And>a b. push_all r ns ?f a b =
         (if (a, b) \<in> set (path_edges ns) then r a b - ?f
          else if (b, a) \<in> set (path_edges ns) then r a b + ?f else r a b)"
    by blast+
  have cut': "cut_capacity (push_all r ns ?f) N S = cut_capacity r N S - ?f" if "is_cut N S" for S
    using cut [of S] that unfolding is_cut_def last hd by (simp add: side_def)
  have pm: "path_min r pf' (N - 1) INT_MAX = Some ?f"
    using path_min_walk [OF walk, of r INT_MAX] bn by simp
  have pp: "path_push r pf' (N - 1) ?f = Some (push_all r ns ?f)"
    by (rule path_push_walk [OF walk])
  show ?thesis
  proof (intro exI [of _ ns] conjI)
    show "parent_walk pf' (N - 1) ns" by (rule walk)
    show "last ns = 0" by (rule last)
    show "distinct ns" by (rule dist)
    show "set ns \<subseteq> {0..<N}" by (rule nodes)
    show "set (path_edges ns) \<noteq> {}" by (rule edges)
    show "\<forall>(u, v) \<in> set (path_edges ns). 0 < r u v" by (rule pos)
    show "0 < ?f" by (rule fpos)
    show "path_min r pf' (N - 1) INT_MAX = Some ?f" by (rule pm)
    show "path_push r pf' (N - 1) ?f = Some (push_all r ns ?f)" by (rule pp)
    show "res_ok c (push_all r ns ?f)" by (rule ok')
    show "\<forall>S. is_cut N S \<longrightarrow> cut_capacity (push_all r ns ?f) N S = cut_capacity r N S - ?f"
      using cut' by blast
    show "\<forall>a b. push_all r ns ?f a b =
         (if (a, b) \<in> set (path_edges ns) then r a b - ?f
          else if (b, a) \<in> set (path_edges ns) then r a b + ?f else r a b)"
      using entries by blast
  qed
qed

section \<open>The augmentation loop\<close>

lemma is_cut_source: "N - 1 \<noteq> 0 \<Longrightarrow> is_cut N {0}"
  by (auto simp add: is_cut_def)

lemma flow_inv_augment:
  assumes inv: "flow_inv c N r F" and pb: "pair_bounded c" and src: "cut_capacity c N {0} \<le> INT_MAX"
    and N: "0 < N" and run: "bfs r N pf 0 (N - 1) = (True, pf')"
  shows "\<exists>f r'. path_min r pf' (N - 1) INT_MAX = Some f \<and> path_push r pf' (N - 1) f = Some r' \<and>
    0 < f \<and> add32 F f = F + f \<and> F + f \<le> cut_capacity c N {0} \<and> flow_inv c N r' (F + f)"
proof -
  from inv have ok: "res_ok c r" and F: "0 \<le> F"
    and cuts: "\<And>S. is_cut N S \<Longrightarrow> F + cut_capacity r N S = cut_capacity c N S"
    unfolding flow_inv_def by blast+
  from augment_path [OF ok pb N run] obtain ns where
    fpos: "0 < path_bottleneck r ns"
    and pm: "path_min r pf' (N - 1) INT_MAX = Some (path_bottleneck r ns)"
    and pp: "path_push r pf' (N - 1) (path_bottleneck r ns) = Some (push_all r ns (path_bottleneck r ns))"
    and ok': "res_ok c (push_all r ns (path_bottleneck r ns))"
    and cut': "\<And>S. is_cut N S \<Longrightarrow> cut_capacity (push_all r ns (path_bottleneck r ns)) N S
          = cut_capacity r N S - path_bottleneck r ns"
    by blast
  let ?f = "path_bottleneck r ns" and ?r' = "push_all r ns (path_bottleneck r ns)"
  from bfs_true [OF N run] have t: "N - 1 \<noteq> 0" by blast
  have inv': "flow_inv c N ?r' (F + ?f)"
    unfolding flow_inv_def
  proof (intro conjI allI impI)
    show "res_ok c ?r'" by (rule ok')
    show "0 \<le> F + ?f" using F fpos by simp
    fix S assume S: "is_cut N S"
    from cut' [OF S] cuts [OF S] show "F + ?f + cut_capacity ?r' N S = cut_capacity c N S"
      by simp
  qed
  from cut' [OF is_cut_source [OF t]] cuts [OF is_cut_source [OF t]]
    cut_capacity_nonneg [OF ok', of N "{0}"]
  have le: "F + ?f \<le> cut_capacity c N {0}" by simp
  with src F fpos have "add32 F ?f = F + ?f"
    unfolding add32_def by (intro wrap32_id') (simp_all add: INT_MAX_def)
  with pm pp fpos le inv' show ?thesis by blast
qed

lemma flow_loop_correct:
  assumes pb: "pair_bounded c" and src: "cut_capacity c N {0} \<le> INT_MAX" and N: "0 < N"
  shows "flow_inv c N r F \<Longrightarrow>
    \<exists>F' r'. flow_loop N r pf F = Some F' \<and> flow_inv c N r' F' \<and>
      (N - 1 \<noteq> 0 \<longrightarrow> (\<exists>S. is_cut N S \<and> cut_capacity r' N S = 0)) \<and>
      (N - 1 = 0 \<longrightarrow> F' = F)"
proof (induction "nat (cut_capacity c N {0} - F)" arbitrary: r pf F rule: less_induct)
  case less
  note inv = less.prems
  obtain b pf' where run: "bfs r N pf 0 (N - 1) = (b, pf')" by (rule prod.exhaust)
  show ?case
  proof (cases b)
    case True
    with run have run': "bfs r N pf 0 (N - 1) = (True, pf')" by simp
    from flow_inv_augment [OF inv pb src N run'] obtain f r' where
      pm: "path_min r pf' (N - 1) INT_MAX = Some f" and pp: "path_push r pf' (N - 1) f = Some r'"
      and f: "0 < f" and a: "add32 F f = F + f" and le: "F + f \<le> cut_capacity c N {0}"
      and inv': "flow_inv c N r' (F + f)"
      by blast
    from bfs_true [OF N run'] have t: "N - 1 \<noteq> 0" by blast
    have step: "flow_loop N r pf F = flow_loop N r' pf' (F + f)"
      by (subst flow_loop.simps) (simp only: run' pm pp a prod.case if_True Option.bind.simps)
    from f le have "nat (cut_capacity c N {0} - (F + f)) < nat (cut_capacity c N {0} - F)"
      by simp
    from less.hyps [OF this inv', of pf']
    obtain F' r'' where rec: "flow_loop N r' pf' (F + f) = Some F'" and inv'': "flow_inv c N r'' F'"
      and fin: "N - 1 \<noteq> 0 \<longrightarrow> (\<exists>S. is_cut N S \<and> cut_capacity r'' N S = 0)"
      by (elim exE conjE) assumption
    show ?thesis
    proof (intro exI [of _ F'] exI [of _ r''] conjI)
      show "flow_loop N r pf F = Some F'" unfolding step by (rule rec)
      show "flow_inv c N r'' F'" by (rule inv'')
      show "N - 1 \<noteq> 0 \<longrightarrow> (\<exists>S. is_cut N S \<and> cut_capacity r'' N S = 0)" by (rule fin)
      show "N - 1 = 0 \<longrightarrow> F' = F" using t by (intro impI) (erule notE)
    qed
  next
    case False
    with run have run': "bfs r N pf 0 (N - 1) = (False, pf')" by simp
    have res: "flow_loop N r pf F = Some F"
      by (subst flow_loop.simps) (simp only: run' prod.case if_False)
    from inv have ok: "res_ok c r" unfolding flow_inv_def by blast
    have fin: "\<exists>S. is_cut N S \<and> cut_capacity r N S = 0" if t: "N - 1 \<noteq> 0"
    proof -
      from bfs_false [OF N run'] obtain S where cl: "src_closed r N S" and s: "0 \<in> S"
        and ts: "N - 1 \<in> S \<longrightarrow> N - 1 = 0" by blast
      from cl have sub: "S \<subseteq> {0..<N}"
        and closed: "\<And>u w. u \<in> S \<Longrightarrow> w < N \<Longrightarrow> 0 < r u w \<Longrightarrow> w \<in> S"
        unfolding src_closed_def by blast+
      from sub s ts t have cut: "is_cut N S" unfolding is_cut_def by blast
      have zero: "r a b = 0" if a: "a \<in> S" and b: "b \<in> {0..<N} - S" for a b
      proof -
        from b have "b < N" "b \<notin> S" by simp_all
        with closed [OF a, of b] have "\<not> 0 < r a b" by blast
        moreover from ok have "0 \<le> r a b" unfolding res_ok_def by blast
        ultimately show ?thesis by simp
      qed
      have "cut_capacity r N S = 0"
        unfolding cut_capacity_def by (intro sum.neutral ballI zero)
      with cut show ?thesis by blast
    qed
    show ?thesis
    proof (intro exI [of _ F] exI [of _ r] conjI impI)
      show "flow_loop N r pf F = Some F" by (rule res)
      show "flow_inv c N r F" by (rule inv)
      show "\<exists>S. is_cut N S \<and> cut_capacity r N S = 0" if "N - 1 \<noteq> 0" using that by (rule fin)
      show "F = F" ..
    qed
  qed
qed

lemma cut_capacity_source:
  assumes "0 < N"
  shows "cut_capacity (initial_residual c N) N {0} = (\<Sum>b \<in> {1..<N}. c 0 b)"
proof -
  have "{0..<N} - {0} = {1..<N}" by auto
  then show ?thesis
    unfolding cut_capacity_def initial_residual_def using assms by simp
qed

lemma flow_inv_initial:
  assumes "valid_matrix c N"
  shows "flow_inv (initial_residual c N) N (initial_residual c N) 0"
  using res_ok_initial [OF assms] by (simp add: flow_inv_def)

text \<open>
  Claim C4, as amended. For every valid capacity matrix whose capacities fit an \<open>int\<close>
  in sum (the two capacities between any two nodes, and the capacities leaving the
  source), the flow computation returns a flow that is at most the capacity of every
  cut separating node 0 from node \<open>N - 1\<close> and, when there is such a cut (\<open>N \<ge> 2\<close>),
  equals the capacity of one of them: the minimum cut capacity. With \<open>N = 1\<close> it is 0.
\<close>

theorem max_flow_is_min_cut:
  assumes v: "valid_matrix c N" and pf: "pair_fits_int c N" and sf: "source_fits_int c N"
  shows "\<exists>F. computeMaxFlow c N = Some F \<and> 0 \<le> F \<and>
    (\<forall>S. is_cut N S \<longrightarrow> F \<le> cut_capacity c N S) \<and>
    (2 \<le> N \<longrightarrow> (\<exists>S. is_cut N S \<and> F = cut_capacity c N S)) \<and>
    (N = 1 \<longrightarrow> F = 0)"
proof -
  let ?c = "initial_residual c N"
  from v have N: "0 < N" by (simp add: valid_matrix_def)
  have pb: "pair_bounded ?c" using v pf by (rule pair_bounded_initial)
  have src: "cut_capacity ?c N {0} \<le> INT_MAX"
    using sf unfolding cut_capacity_source [OF N] source_fits_int_def .
  from flow_loop_correct [OF pb src N flow_inv_initial [OF v], of "\<lambda>i. 0"]
  obtain F r where run: "flow_loop N ?c (\<lambda>i. 0) 0 = Some F" and inv: "flow_inv ?c N r F"
    and fin: "N - 1 \<noteq> 0 \<longrightarrow> (\<exists>S. is_cut N S \<and> cut_capacity r N S = 0)"
    and one: "N - 1 = 0 \<longrightarrow> F = 0"
    by (elim exE conjE) assumption
  from inv have ok: "res_ok ?c r" and F: "0 \<le> F"
    and cuts: "\<And>S. is_cut N S \<Longrightarrow> F + cut_capacity r N S = cut_capacity c N S"
    unfolding flow_inv_def by (auto simp add: cut_capacity_initial is_cut_def)
  have weak: "F \<le> cut_capacity c N S" if "is_cut N S" for S
    using cuts [OF that] cut_capacity_nonneg [OF ok, of N S] by simp
  have strong: "\<exists>S. is_cut N S \<and> F = cut_capacity c N S" if "2 \<le> N"
  proof -
    from that fin obtain S where S: "is_cut N S" "cut_capacity r N S = 0" by auto
    with cuts [OF S(1)] show ?thesis by auto
  qed
  from run F weak strong one show ?thesis
    unfolding computeMaxFlow_def by auto
qed

theorem max_flow_is_min_cut_witness:
  "valid_matrix (mat [[0, 10, 10, 0], [0, 0, 0, 10], [0, 0, 0, 10], [0, 0, 0, 0]]) 4 \<and>
   pair_fits_int (mat [[0, 10, 10, 0], [0, 0, 0, 10], [0, 0, 0, 10], [0, 0, 0, 0]]) 4 \<and>
   source_fits_int (mat [[0, 10, 10, 0], [0, 0, 0, 10], [0, 0, 0, 10], [0, 0, 0, 0]]) 4 \<and>
   computeMaxFlow (mat [[0, 10, 10, 0], [0, 0, 0, 10], [0, 0, 0, 10], [0, 0, 0, 0]]) 4 = Some 20 \<and>
   is_cut 4 {0, 1} \<and>
   20 \<le> cut_capacity (mat [[0, 10, 10, 0], [0, 0, 0, 10], [0, 0, 0, 10], [0, 0, 0, 0]]) 4 {0, 1} \<and>
   (\<exists>S. is_cut 4 S \<and>
      20 = cut_capacity (mat [[0, 10, 10, 0], [0, 0, 0, 10], [0, 0, 0, 10], [0, 0, 0, 0]]) 4 S)"
proof -
  let ?c = "mat [[0, 10, 10, 0], [0, 0, 0, 10], [0, 0, 0, 10], [0, 0, 0, 0]]"
  have v: "valid_matrix ?c 4" by code_simp
  have p: "pair_fits_int ?c 4" by code_simp
  have s: "source_fits_int ?c 4" by code_simp
  have e: "computeMaxFlow ?c 4 = Some 20" by code_simp
  have c: "is_cut 4 {0, 1}" by (simp add: is_cut_def)
  from max_flow_is_min_cut [OF v p s] e c
  have "20 \<le> cut_capacity ?c 4 {0, 1}" "\<exists>S. is_cut 4 S \<and> 20 = cut_capacity ?c 4 S"
    by auto
  with v p s e c show ?thesis by simp
qed

text \<open>
  Claim C4 as stated fails on a valid capacity matrix whose flow does not fit an \<open>int\<close>:
  with three nodes and capacity \<open>INT_MAX\<close> on \<open>0 \<rightarrow> 1\<close>, \<open>0 \<rightarrow> 2\<close> and \<open>1 \<rightarrow> 2\<close>, both cuts
  have capacity \<open>2 * INT_MAX\<close>, and \<open>maxFlow += pathFlow\<close> wraps around to \<open>-2\<close>.
\<close>

theorem max_flow_wraps_around:
  "valid_matrix (mat [[0, 2147483647, 2147483647], [0, 0, 2147483647], [0, 0, 0]]) 3 \<and>
   computeMaxFlow (mat [[0, 2147483647, 2147483647], [0, 0, 2147483647], [0, 0, 0]]) 3 = Some (- 2) \<and>
   cut_capacity (mat [[0, 2147483647, 2147483647], [0, 0, 2147483647], [0, 0, 0]]) 3 {0} = 4294967294 \<and>
   cut_capacity (mat [[0, 2147483647, 2147483647], [0, 0, 2147483647], [0, 0, 0]]) 3 {0, 1} = 4294967294"
proof -
  let ?c = "mat [[0, 2147483647, 2147483647], [0, 0, 2147483647], [0, 0, 0]]"
  have "valid_matrix ?c 3" by code_simp
  moreover have "computeMaxFlow ?c 3 = Some (- 2)" by code_simp
  moreover have "{0..<3} - {0::nat} = {1, 2}" "{0..<3} - {0::nat, 1} = {2}" by auto
  then have "cut_capacity ?c 3 {0} = 4294967294" "cut_capacity ?c 3 {0, 1} = 4294967294"
    by (simp_all add: cut_capacity_def mat_def)
  ultimately show ?thesis by simp
qed

section \<open>The residual matrix throughout the loop\<close>

lemma flow_state_res_ok:
  assumes v: "valid_matrix c N" and pf: "pair_fits_int c N"
  shows "flow_state c N r pf' F \<Longrightarrow> res_ok (initial_residual c N) r"
proof (induction rule: flow_state.induct)
  case initial
  show ?case using v by (rule res_ok_initial)
next
  case (augmented r parentFlow maxFlow parentFlow' pathFlow r')
  from v have N: "0 < N" by (simp add: valid_matrix_def)
  from augment_path [OF augmented.IH pair_bounded_initial [OF v pf] N augmented.hyps(2)]
  obtain ns where
    pm: "path_min r parentFlow' (N - 1) INT_MAX = Some (path_bottleneck r ns)"
    and pp: "path_push r parentFlow' (N - 1) (path_bottleneck r ns) = Some (push_all r ns (path_bottleneck r ns))"
    and ok': "res_ok (initial_residual c N) (push_all r ns (path_bottleneck r ns))"
    by blast
  from pm augmented.hyps(3) have "pathFlow = path_bottleneck r ns" by simp
  with pp augmented.hyps(4) have "r' = push_all r ns (path_bottleneck r ns)" by simp
  with ok' show ?case by simp
qed

text \<open>
  Claim C9, as amended. For every valid capacity matrix in which the two capacities
  between any two nodes fit an \<open>int\<close> together, at every head of the augmentation loop
  no entry of the residual matrix is negative and the entries \<open>residual[a][b]\<close> and
  \<open>residual[b][a]\<close> sum to \<open>capacity[a][b] + capacity[b][a]\<close>; and when the search finds
  the sink, the parent pointers lead from the sink to node 0, the path flow is the
  least residual capacity on that path and is positive, and the update subtracts it
  from the entries of the path's edges and adds it to the entries of the reverse
  edges, leaving every other entry as it was.
\<close>

theorem residual_invariant:
  assumes v: "valid_matrix c N" and pf: "pair_fits_int c N" and st: "flow_state c N r parentFlow maxFlow"
  shows "(\<forall>a b. 0 \<le> r a b) \<and>
    (\<forall>a \<in> {0..<N}. \<forall>b \<in> {0..<N}. r a b + r b a = c a b + c b a) \<and>
    (\<forall>parentFlow'. bfs r N parentFlow 0 (N - 1) = (True, parentFlow') \<longrightarrow>
       (\<exists>ns. parent_walk parentFlow' (N - 1) ns \<and> last ns = 0 \<and>
          0 < path_bottleneck r ns \<and>
          path_min r parentFlow' (N - 1) INT_MAX = Some (path_bottleneck r ns) \<and>
          (\<exists>r'. path_push r parentFlow' (N - 1) (path_bottleneck r ns) = Some r' \<and>
             (\<forall>a b. r' a b =
                (if (a, b) \<in> set (path_edges ns) then r a b - path_bottleneck r ns
                 else if (b, a) \<in> set (path_edges ns) then r a b + path_bottleneck r ns
                 else r a b)))))"
proof (intro conjI allI impI ballI)
  from flow_state_res_ok [OF v pf st] have ok: "res_ok (initial_residual c N) r" .
  then have nn: "\<And>a b. 0 \<le> r a b"
    and sum: "\<And>a b. r a b + r b a = initial_residual c N a b + initial_residual c N b a"
    unfolding res_ok_def by blast+
  from v have N: "0 < N" by (simp add: valid_matrix_def)
  {
    fix a b show "0 \<le> r a b" by (rule nn)
  next
    fix a b assume "a \<in> {0..<N}" "b \<in> {0..<N}"
    with sum [of a b] show "r a b + r b a = c a b + c b a"
      by (simp add: initial_residual_def)
  next
    fix parentFlow' assume run: "bfs r N parentFlow 0 (N - 1) = (True, parentFlow')"
    from augment_path [OF ok pair_bounded_initial [OF v pf] N run]
    obtain ns where walk: "parent_walk parentFlow' (N - 1) ns" and last: "last ns = 0"
      and fpos: "0 < path_bottleneck r ns"
      and pm: "path_min r parentFlow' (N - 1) INT_MAX = Some (path_bottleneck r ns)"
      and pp: "path_push r parentFlow' (N - 1) (path_bottleneck r ns) = Some (push_all r ns (path_bottleneck r ns))"
      and entries: "\<And>a b. push_all r ns (path_bottleneck r ns) a b =
         (if (a, b) \<in> set (path_edges ns) then r a b - path_bottleneck r ns
          else if (b, a) \<in> set (path_edges ns) then r a b + path_bottleneck r ns else r a b)"
      by blast
    show "\<exists>ns. parent_walk parentFlow' (N - 1) ns \<and> last ns = 0 \<and>
          0 < path_bottleneck r ns \<and>
          path_min r parentFlow' (N - 1) INT_MAX = Some (path_bottleneck r ns) \<and>
          (\<exists>r'. path_push r parentFlow' (N - 1) (path_bottleneck r ns) = Some r' \<and>
             (\<forall>a b. r' a b =
                (if (a, b) \<in> set (path_edges ns) then r a b - path_bottleneck r ns
                 else if (b, a) \<in> set (path_edges ns) then r a b + path_bottleneck r ns
                 else r a b)))"
    proof (intro exI [of _ ns] conjI exI [of _ "push_all r ns (path_bottleneck r ns)"] allI)
      show "parent_walk parentFlow' (N - 1) ns" by (rule walk)
      show "last ns = 0" by (rule last)
      show "0 < path_bottleneck r ns" by (rule fpos)
      show "path_min r parentFlow' (N - 1) INT_MAX = Some (path_bottleneck r ns)" by (rule pm)
      show "path_push r parentFlow' (N - 1) (path_bottleneck r ns)
        = Some (push_all r ns (path_bottleneck r ns))" by (rule pp)
      fix a b
      show "push_all r ns (path_bottleneck r ns) a b =
         (if (a, b) \<in> set (path_edges ns) then r a b - path_bottleneck r ns
          else if (b, a) \<in> set (path_edges ns) then r a b + path_bottleneck r ns else r a b)"
        by (rule entries)
    qed
  }
qed

theorem residual_invariant_witness:
  "valid_matrix (mat [[0, 10, 10, 0], [0, 0, 0, 10], [0, 0, 0, 10], [0, 0, 0, 0]]) 4 \<and>
   pair_fits_int (mat [[0, 10, 10, 0], [0, 0, 0, 10], [0, 0, 0, 10], [0, 0, 0, 0]]) 4 \<and>
   flow_state (mat [[0, 10, 10, 0], [0, 0, 0, 10], [0, 0, 0, 10], [0, 0, 0, 0]]) 4
     (initial_residual (mat [[0, 10, 10, 0], [0, 0, 0, 10], [0, 0, 0, 10], [0, 0, 0, 0]]) 4) (\<lambda>i. 0) 0 \<and>
   fst (bfs (initial_residual (mat [[0, 10, 10, 0], [0, 0, 0, 10], [0, 0, 0, 10], [0, 0, 0, 0]]) 4)
          4 (\<lambda>i. 0) 0 (4 - 1)) \<and>
   (\<forall>a b. 0 \<le> initial_residual (mat [[0, 10, 10, 0], [0, 0, 0, 10], [0, 0, 0, 10], [0, 0, 0, 0]]) 4 a b) \<and>
   (\<exists>ns. parent_walk
           (snd (bfs (initial_residual (mat [[0, 10, 10, 0], [0, 0, 0, 10], [0, 0, 0, 10], [0, 0, 0, 0]]) 4)
                   4 (\<lambda>i. 0) 0 (4 - 1)))
           (4 - 1) ns \<and>
         last ns = 0 \<and>
         0 < path_bottleneck
               (initial_residual (mat [[0, 10, 10, 0], [0, 0, 0, 10], [0, 0, 0, 10], [0, 0, 0, 0]]) 4) ns)"
proof -
  let ?c = "mat [[0, 10, 10, 0], [0, 0, 0, 10], [0, 0, 0, 10], [0, 0, 0, 0]]"
  let ?run = "bfs (initial_residual ?c 4) 4 (\<lambda>i. 0) 0 (4 - 1)"
  have v: "valid_matrix ?c 4" by code_simp
  have p: "pair_fits_int ?c 4" by code_simp
  have st: "flow_state ?c 4 (initial_residual ?c 4) (\<lambda>i. 0) 0" by (rule flow_state.initial)
  have f: "fst ?run" by code_simp
  then have run: "?run = (True, snd ?run)" by (cases ?run) simp
  from residual_invariant [OF v p st]
  have nn: "\<forall>a b. 0 \<le> initial_residual ?c 4 a b"
    and step: "\<forall>parentFlow'. ?run = (True, parentFlow') \<longrightarrow>
       (\<exists>ns. parent_walk parentFlow' (4 - 1) ns \<and> last ns = 0 \<and>
          0 < path_bottleneck (initial_residual ?c 4) ns \<and>
          path_min (initial_residual ?c 4) parentFlow' (4 - 1) INT_MAX
            = Some (path_bottleneck (initial_residual ?c 4) ns) \<and>
          (\<exists>r'. path_push (initial_residual ?c 4) parentFlow' (4 - 1)
                  (path_bottleneck (initial_residual ?c 4) ns) = Some r' \<and>
             (\<forall>a b. r' a b =
                (if (a, b) \<in> set (path_edges ns)
                 then initial_residual ?c 4 a b - path_bottleneck (initial_residual ?c 4) ns
                 else if (b, a) \<in> set (path_edges ns)
                 then initial_residual ?c 4 a b + path_bottleneck (initial_residual ?c 4) ns
                 else initial_residual ?c 4 a b))))"
    by blast+
  from step run have "\<exists>ns. parent_walk (snd ?run) (4 - 1) ns \<and> last ns = 0 \<and>
      0 < path_bottleneck (initial_residual ?c 4) ns"
    by blast
  with v p st f nn show ?thesis by blast
qed

lemma residual_after_first_state:
  assumes "residual_after_first c N a b = Some x"
  shows "\<exists>r parentFlow maxFlow. flow_state c N r parentFlow maxFlow \<and> r a b = x"
proof -
  let ?r0 = "initial_residual c N"
  obtain found pf' where run: "bfs ?r0 N (\<lambda>i. 0) 0 (N - 1) = (found, pf')" by (rule prod.exhaust)
  with assms have found: "found"
    unfolding residual_after_first_def by (cases found) simp_all
  with run have run': "bfs ?r0 N (\<lambda>i. 0) 0 (N - 1) = (True, pf')" by simp
  from assms obtain f where pm: "path_min ?r0 pf' (N - 1) INT_MAX = Some f"
    and rest: "map_option (\<lambda>r'. r' a b) (path_push ?r0 pf' (N - 1) f) = Some x"
    unfolding residual_after_first_def run'
    by (cases "path_min ?r0 pf' (N - 1) INT_MAX") simp_all
  from rest obtain r' where pp: "path_push ?r0 pf' (N - 1) f = Some r'" and x: "r' a b = x"
    by (cases "path_push ?r0 pf' (N - 1) f") simp_all
  from flow_state.augmented [OF flow_state.initial run' pm pp] x show ?thesis by blast
qed

text \<open>
  Claim C9 as stated fails on a valid capacity matrix with two large opposite
  capacities: with \<open>c[0][1] = INT_MAX\<close> and \<open>c[1][0] = 1\<close> the first augmentation pushes
  \<open>INT_MAX\<close> along \<open>0 \<rightarrow> 1\<close>, and \<open>residual[1][0] += pathFlow\<close> wraps around to \<open>INT_MIN\<close>.
\<close>

theorem residual_entry_negative_after_overflow:
  "valid_matrix (mat [[0, 2147483647], [1, 0]]) 2 \<and>
   residual_after_first (mat [[0, 2147483647], [1, 0]]) 2 1 0 = Some (- 2147483648)"
proof -
  have "valid_matrix (mat [[0, 2147483647], [1, 0]]) 2" by code_simp
  moreover have "residual_after_first (mat [[0, 2147483647], [1, 0]]) 2 1 0 = Some (- 2147483648)"
    by code_simp
  ultimately show ?thesis by simp
qed

end
